theory Spec2Isabelle
  imports Main "HOL-Library.Word" "HOL-Library.Sublist"
begin

section \<open>JavaScript strings and the regular expressions of \<open>cleanText\<close>\<close>

text \<open>
  A JavaScript string is a sequence of UTF-16 code units; \<open>length\<close>, \<open>slice\<close>,
  \<open>trim\<close> and a regular expression without the \<open>u\<close> flag all work on code units.
\<close>

type_synonym jschar = "16 word"
type_synonym jsstring = "jschar list"

definition cu :: "char \<Rightarrow> jschar" where
  "cu c = of_char c"

definition js :: "string \<Rightarrow> jsstring" where
  "js s = map cu s"

text \<open>The character classes \<open>\d\<close>, \<open>\w\<close> and \<open>\s\<close> of ECMAScript (no \<open>u\<close>, no \<open>i\<close> flag).\<close>

definition isDigit :: "jschar \<Rightarrow> bool" where
  "isDigit c = (48 \<le> c \<and> c \<le> 57)"

definition isWord :: "jschar \<Rightarrow> bool" where
  "isWord c = ((65 \<le> c \<and> c \<le> 90) \<or> (97 \<le> c \<and> c \<le> 122) \<or> isDigit c \<or> c = 95)"

definition isSpace :: "jschar \<Rightarrow> bool" where
  "isSpace c = ((9 \<le> c \<and> c \<le> 13) \<or> c = 32 \<or> c = 160 \<or> c = 5760
       \<or> (8192 \<le> c \<and> c \<le> 8202) \<or> c = 8232 \<or> c = 8233 \<or> c = 8239 \<or> c = 8287
       \<or> c = 12288 \<or> c = 65279)"

definition notSpace :: "jschar \<Rightarrow> bool" where
  "notSpace c = (\<not> isSpace c)"

definition lit :: "char \<Rightarrow> jschar \<Rightarrow> bool" where
  "lit a c = (c = cu a)"

definition oneOf :: "string \<Rightarrow> jschar \<Rightarrow> bool" where
  "oneOf as c = (c \<in> set (js as))"

text \<open>
  The five patterns use three constructs only: a single character of a class, an optional
  character (\<open>?\<close>) and a greedy repetition (\<open>+\<close>).
\<close>

datatype item = One "jschar \<Rightarrow> bool" | Opt "jschar \<Rightarrow> bool" | Plus "jschar \<Rightarrow> bool"

text \<open>
  \<open>match_at p s\<close> matches pattern \<open>p\<close> at the start of \<open>s\<close> the way the backtracking
  matcher of ECMAScript does: \<open>?\<close> and \<open>+\<close> first try to take a character and fall back
  to the shorter alternative when the rest of the pattern fails. The result is the number
  of code units matched.
\<close>

fun match_at :: "item list \<Rightarrow> jsstring \<Rightarrow> nat option" where
  "match_at [] s = Some 0"
| "match_at (One p # is) [] = None"
| "match_at (One p # is) (c # cs) =
     (if p c then map_option Suc (match_at is cs) else None)"
| "match_at (Opt p # is) [] = match_at is []"
| "match_at (Opt p # is) (c # cs) =
     (if p c then (case match_at is cs of Some k \<Rightarrow> Some (Suc k) | None \<Rightarrow> match_at is (c # cs))
      else match_at is (c # cs))"
| "match_at (Plus p # is) [] = None"
| "match_at (Plus p # is) (c # cs) =
     (if p c then (case match_at (Plus p # is) cs of Some k \<Rightarrow> Some (Suc k)
                   | None \<Rightarrow> map_option Suc (match_at is cs))
      else None)"

text \<open>
  \<open>str.replace(/re/g, r)\<close>: scan from the left; at each position try the pattern; on a
  match emit \<open>r\<close> and go on after the match, otherwise keep the code unit and move one
  position on. None of the five patterns matches the empty string (\<open>match_at_positive\<close>
  below), so a match is at least one code unit long and \<open>k - 1\<close> more are dropped after
  the first.
\<close>

function replace_g :: "item list \<Rightarrow> jsstring \<Rightarrow> jsstring \<Rightarrow> jsstring" where
  "replace_g p r [] = []"
| "replace_g p r (c # cs) =
     (case match_at p (c # cs) of
        None \<Rightarrow> c # replace_g p r cs
      | Some k \<Rightarrow> r @ replace_g p r (drop (k - 1) cs))"
  by pat_completeness auto
termination
  by (relation "measure (\<lambda>(p, r, s). length s)") auto

text \<open>\<open>String.prototype.trim\<close> strips white space and line terminators from both ends.\<close>

definition trim :: "jsstring \<Rightarrow> jsstring" where
  "trim s = rev (dropWhile isSpace (rev (dropWhile isSpace s)))"

text \<open>The regular expression literals of \<open>cleanText\<close>, in source order.\<close>

definition mentionRe :: "item list" where
  "mentionRe = [One (lit CHR ''<''), One (lit CHR ''@''), Opt (oneOf ''!&''), Plus isDigit,
                One (lit CHR ''>'')]"

definition channelRe :: "item list" where
  "channelRe = [One (lit CHR ''<''), One (lit CHR ''#''), Plus isDigit, One (lit CHR ''>'')]"

definition emojiRe :: "item list" where
  "emojiRe = [One (lit CHR ''<''), Opt (lit CHR ''a''), One (lit CHR '':''), Plus isWord,
              One (lit CHR '':''), Plus isDigit, One (lit CHR ''>'')]"

definition urlRe :: "item list" where
  "urlRe = [One (lit CHR ''h''), One (lit CHR ''t''), One (lit CHR ''t''), One (lit CHR ''p''),
            Opt (lit CHR ''s''), One (lit CHR '':''), One (lit CHR ''/''), One (lit CHR ''/''),
            Plus notSpace]"

definition spaceRe :: "item list" where
  "spaceRe = [Plus isSpace]"

text \<open>
  \<open>cleanText\<close> (the same in both variants of the bot). \<open>!str\<close> holds for the empty
  string (and for \<open>null\<close>/\<open>undefined\<close>, which the callers never pass).
\<close>

definition cleanText :: "jsstring \<Rightarrow> jsstring" where
  "cleanText str =
     (if str = [] then []
      else trim (replace_g spaceRe (js '' '')
                 (replace_g urlRe (js ''a link'')
                  (replace_g emojiRe []
                   (replace_g channelRe (js ''a channel'')
                    (replace_g mentionRe (js ''someone'') str))))))"


section \<open>Matches, and strings without tokens\<close>

text \<open>The words a pattern matches in full.\<close>

inductive accepts :: "item list \<Rightarrow> jsstring \<Rightarrow> bool" where
  Done: "accepts [] []"
| Single: "p c \<Longrightarrow> accepts is w \<Longrightarrow> accepts (One p # is) (c # w)"
| Skip: "accepts is w \<Longrightarrow> accepts (Opt p # is) w"
| Take: "p c \<Longrightarrow> accepts is w \<Longrightarrow> accepts (Opt p # is) (c # w)"
| Last: "p c \<Longrightarrow> accepts is w \<Longrightarrow> accepts (Plus p # is) (c # w)"
| More: "p c \<Longrightarrow> accepts (Plus p # is) w \<Longrightarrow> accepts (Plus p # is) (c # w)"

text \<open>The class of an item.\<close>

fun cls :: "item \<Rightarrow> jschar \<Rightarrow> bool" where
  "cls (One p) = p"
| "cls (Opt p) = p"
| "cls (Plus p) = p"

text \<open>\<open>no_match p s\<close>: the pattern matches at no position of \<open>s\<close>.\<close>

fun no_match :: "item list \<Rightarrow> jsstring \<Rightarrow> bool" where
  "no_match p [] = True"
| "no_match p (c # cs) = (match_at p (c # cs) = None \<and> no_match p cs)"

text \<open>
  Two conditions under which replacing the matches of \<open>m\<close> by \<open>r\<close> creates no match of \<open>p\<close>:
  a match of \<open>p\<close> that runs into an inserted \<open>r\<close> was a match of \<open>p\<close> before, where \<open>m\<close>
  matched (\<open>guarded\<close>); and no match of \<open>p\<close> starts inside \<open>r\<close> (\<open>inert\<close>).
\<close>

definition guarded :: "item list \<Rightarrow> jsstring \<Rightarrow> item list \<Rightarrow> bool" where
  "guarded p r m \<longleftrightarrow>
     (\<forall>y b t. accepts p (y @ b) \<and> b \<noteq> [] \<and> (prefix b r \<or> prefix r b) \<and> match_at m t \<noteq> None
        \<longrightarrow> match_at p (y @ t) \<noteq> None)"

definition inert :: "item list \<Rightarrow> jsstring \<Rightarrow> bool" where
  "inert p r \<longleftrightarrow> (\<forall>c \<in> set r. \<forall>t. match_at p (c # t) = None)"

text \<open>White space in normal form: every white-space code unit is a single U+0020 between
  two other code units, or at an end.\<close>

fun wsn :: "jsstring \<Rightarrow> bool" where
  "wsn [] = True"
| "wsn [c] = (isSpace c \<longrightarrow> c = 32)"
| "wsn (c # d # ds) = ((isSpace c \<longrightarrow> c = 32 \<and> \<not> isSpace d) \<and> wsn (d # ds))"

text \<open>
  \<open>unspliced s\<close>: after the mention, channel and emoji passes of \<open>cleanText\<close> no mention,
  channel or emoji token is left. Only the removal of an emoji can leave one, by joining
  what stood on either side of it.
\<close>

definition unspliced :: "jsstring \<Rightarrow> bool" where
  "unspliced s =
     (let c = replace_g emojiRe []
                (replace_g channelRe (js ''a channel'') (replace_g mentionRe (js ''someone'') s))
      in no_match mentionRe c \<and> no_match channelRe c \<and> no_match emojiRe c)"


section \<open>The speak queue\<close>

text \<open>
  The repository holds two variants of the bot: \<open>index.js\<close> (remote synthesis to an MP3
  file, probed before playback) and an earlier local variant (\<open>say\<close> and \<open>afconvert\<close> to a
  WAV file). Both keep the module-level \<open>queue\<close> and \<open>isSpeaking\<close>.
\<close>

datatype variant = Remote | Local

type_synonym path = nat

text \<open>
  \<open>speak\<close> is an \<open>async\<close> function: it runs without interruption up to an \<open>await\<close> and is
  resumed in a later turn of the event loop. A suspended invocation is a \<open>task\<close>: the item
  it holds (\<open>next\<close>), the value of \<open>mp3Path\<close>/\<open>wavPath\<close> (\<open>None\<close> for \<open>null\<close>/\<open>undefined\<close>;
  a path returned by the synthesizer is a non-empty string, hence truthy) and the \<open>await\<close>
  it is suspended at.
\<close>

datatype phase = Synth | Probe | Playing

record task =
  item :: jsstring
  mp3Path :: "path option"
  phase :: phase

datatype effect =
    Push jsstring
  | Shift jsstring
  | Synthesize jsstring
  | Play jsstring
  | IdleSeen
  | LogError
  | Wrote path
  | Unlink path
  | Gone path
  | Kept path
  | Stray path

text \<open>
  The state: the module-level \<open>queue\<close> and \<open>isSpeaking\<close>, the suspended invocations, the
  temporary files that exist on disk (\<open>files\<close>), the files on which \<open>fs.unlink\<close> has been
  called and has not completed yet (\<open>unlinking\<close>), and what has happened so far (\<open>trace\<close>).
\<close>

record bot =
  queue :: "jsstring list"
  isSpeaking :: bool
  tasks :: "task list"
  files :: "path set"
  unlinking :: "path set"
  trace :: "effect list"

definition init :: bot where
  "init = \<lparr>queue = [], isSpeaking = False, tasks = [], files = {}, unlinking = {}, trace = []\<rparr>"

definition emit :: "effect list \<Rightarrow> bot \<Rightarrow> bot" where
  "emit es s = s\<lparr>trace := trace s @ es\<rparr>"

text \<open>\<open>s.slice(0, n)\<close> for an integral \<open>n\<close>: a negative end counts from the end of the string.\<close>

definition slice0 :: "jsstring \<Rightarrow> int \<Rightarrow> jsstring" where
  "slice0 s n = (if n < 0 then take (nat (int (length s) + n)) s else take (nat n) s)"

text \<open>The marker appended on truncation: a space and U+2026.\<close>

definition ellipsis :: jsstring where
  "ellipsis = [32, 8230]"

definition clip :: "int \<Rightarrow> jsstring \<Rightarrow> jsstring" where
  "clip maxLen s = (if int (length s) > maxLen then slice0 s maxLen @ ellipsis else s)"

text \<open>
  The head of the consumer loop: \<open>while (queue.length) { const next = queue.shift(); ...
  await ttsToMp3(next)\<close>. It either suspends in the synthesizer with the item taken, or
  leaves the loop and clears \<open>isSpeaking\<close>.
\<close>

definition loop :: "bot \<Rightarrow> bot \<times> task option" where
  "loop s =
     (case queue s of
        [] \<Rightarrow> (s\<lparr>isSpeaking := False\<rparr>, None)
      | next # rest \<Rightarrow>
          (emit [Shift next, Synthesize next] (s\<lparr>queue := rest\<rparr>),
           Some \<lparr>item = next, mp3Path = None, phase = Synth\<rparr>))"

text \<open>
  The \<open>catch\<close> block logs. The \<open>finally\<close> block calls \<open>fs.unlink(mp3Path, () => {})\<close> if
  \<open>mp3Path\<close> is set: the call only asks for the file to be removed; the file is still
  there when the call returns, and the loop goes round in the same turn.
\<close>

definition catch :: "bot \<Rightarrow> bot" where
  "catch s = emit [LogError] s"

definition finally_next :: "task \<Rightarrow> bot \<Rightarrow> bot \<times> task option" where
  "finally_next t s =
     loop (case mp3Path t of
             None \<Rightarrow> s
           | Some p \<Rightarrow> emit [Unlink p] (s\<lparr>unlinking := insert p (unlinking s)\<rparr>))"

text \<open>\<open>createAudioResource(...); player.play(resource); await\<close> the Idle event. \<open>ok\<close> tells
  whether the two synchronous calls return normally.\<close>

definition play :: "bool \<Rightarrow> task \<Rightarrow> bot \<Rightarrow> bot \<times> task option" where
  "play ok t s =
     (if ok then (emit [Play (item t)] s, Some (t\<lparr>phase := Playing\<rparr>))
      else finally_next t (catch s))"

text \<open>The tail of \<open>speak\<close>, common to both variants, from \<open>queue.push(clipped)\<close> on.\<close>

definition enqueue :: "jsstring \<Rightarrow> bot \<Rightarrow> bot" where
  "enqueue clipped s =
     (let s1 = emit [Push clipped] (s\<lparr>queue := queue s @ [clipped]\<rparr>) in
      if isSpeaking s1 then s1
      else (case loop (s1\<lparr>isSpeaking := True\<rparr>) of
              (s2, None) \<Rightarrow> s2
            | (s2, Some t) \<Rightarrow> s2\<lparr>tasks := tasks s2 @ [t]\<rparr>))"

text \<open>\<open>speak\<close> of \<open>index.js\<close>, with \<open>MAX_LEN\<close> from the environment (an integer here).\<close>

definition speak_remote :: "int \<Rightarrow> bot \<Rightarrow> jsstring \<Rightarrow> bot" where
  "speak_remote MAX_LEN s text =
     (let cleaned = cleanText text in
      if cleaned = [] then s else enqueue (clip MAX_LEN cleaned) s)"

text \<open>\<open>speak\<close> of the local variant: no sanitizing, no emptiness check, \<open>MAX_LEN = 400\<close>.\<close>

definition speak_local :: "bot \<Rightarrow> jsstring \<Rightarrow> bot" where
  "speak_local s text = enqueue (clip 400 text) s"

definition speak :: "variant \<Rightarrow> int \<Rightarrow> bot \<Rightarrow> jsstring \<Rightarrow> bot" where
  "speak v MAX_LEN s text =
     (case v of Remote \<Rightarrow> speak_remote MAX_LEN s text | Local \<Rightarrow> speak_local s text)"

text \<open>
  A synthesis that rejects: before its output file was created (\<open>Early\<close>: \<open>getAudioUrl\<close>
  throws, or \<open>say.export\<close> fails), or after (\<open>Late p ok\<close>). In \<open>index.js\<close> the file comes from
  \<open>fs.createWriteStream(outPath)\<close> in \<open>downloadToFile\<close>, whose two rejecting paths run
  \<open>try { fs.unlinkSync(outPath); } catch {}\<close> first; \<open>ok\<close> tells whether that call succeeds.
  In the local variant \<open>afconvert\<close> has written \<open>wavPath\<close> when it fails; the \<open>catch\<close> of
  \<open>ttsToWav\<close> unlinks \<open>cafPath\<close> only, so the file stays. In neither variant does the
  consumer loop learn the path: \<open>mp3Path\<close>/\<open>wavPath\<close> is still unset in \<open>finally\<close>.
\<close>

datatype failure = Early | Late path bool

definition synth_failed :: "variant \<Rightarrow> failure \<Rightarrow> bot \<Rightarrow> bot" where
  "synth_failed v f s =
     (case f of
        Early \<Rightarrow> s
      | Late p ok \<Rightarrow>
          (case v of
             Remote \<Rightarrow>
               if ok then s\<lparr>files := insert p (files s) - {p}\<rparr>
               else emit [Stray p] (s\<lparr>files := insert p (files s)\<rparr>)
           | Local \<Rightarrow> emit [Stray p] (s\<lparr>files := insert p (files s)\<rparr>)))"

text \<open>
  What the environment does to the bot, one turn of the event loop each: a handler calls
  \<open>speak\<close>; the promise that task \<open>i\<close> awaits settles; or an \<open>fs.unlink\<close> completes.
  \<open>SynthResolved i p ok\<close>: the synthesizer has written file \<open>p\<close> and returned its path;
  \<open>ok\<close> tells whether the synchronous calls that follow in the same turn return normally
  (\<open>fs.createReadStream\<close> in \<open>index.js\<close>, where the probe comes next;
  \<open>createAudioResource\<close> and \<open>player.play\<close> in the local variant).
  \<open>UnlinkDone p ok\<close>: the unlink of \<open>p\<close> asked for earlier has completed, with the file removed
  (\<open>ok\<close>) or with an error, which the empty callback discards.
\<close>

datatype event =
    Speak jsstring
  | SynthResolved nat path bool
  | SynthRejected nat failure
  | ProbeResolved nat bool
  | ProbeRejected nat
  | PlayerIdle nat
  | UnlinkDone path bool

definition put_task :: "nat \<Rightarrow> bot \<times> task option \<Rightarrow> bot" where
  "put_task i r =
     (case r of
        (s, None) \<Rightarrow> s\<lparr>tasks := take i (tasks s) @ drop (Suc i) (tasks s)\<rparr>
      | (s, Some t) \<Rightarrow> s\<lparr>tasks := (tasks s)[i := t]\<rparr>)"

definition awaiting :: "bot \<Rightarrow> nat \<Rightarrow> phase \<Rightarrow> bool" where
  "awaiting s i ph = (i < length (tasks s) \<and> phase (tasks s ! i) = ph)"

fun step :: "variant \<Rightarrow> int \<Rightarrow> bot \<Rightarrow> event \<Rightarrow> bot" where
  "step v n s (Speak text) = speak v n s text"
| "step v n s (SynthResolved i p ok) =
     (if awaiting s i Synth then
        (let t = (tasks s ! i)\<lparr>mp3Path := Some p\<rparr>;
             s1 = emit [Wrote p] (s\<lparr>files := insert p (files s)\<rparr>)
         in case v of
              Remote \<Rightarrow>
                if ok then put_task i (s1, Some (t\<lparr>phase := Probe\<rparr>))
                else put_task i (finally_next t (catch s1))
            | Local \<Rightarrow> put_task i (play ok t s1))
      else s)"
| "step v n s (SynthRejected i f) =
     (if awaiting s i Synth
      then put_task i (finally_next (tasks s ! i) (catch (synth_failed v f s))) else s)"
| "step v n s (ProbeResolved i ok) =
     (if awaiting s i Probe then put_task i (play ok (tasks s ! i) s) else s)"
| "step v n s (ProbeRejected i) =
     (if awaiting s i Probe then put_task i (finally_next (tasks s ! i) (catch s)) else s)"
| "step v n s (PlayerIdle i) =
     (if awaiting s i Playing
      then put_task i (finally_next (tasks s ! i) (emit [IdleSeen] s)) else s)"
| "step v n s (UnlinkDone p ok) =
     (if p \<in> unlinking s then
        (let s1 = s\<lparr>unlinking := unlinking s - {p}\<rparr>
         in if ok then emit [Gone p] (s1\<lparr>files := files s1 - {p}\<rparr>) else emit [Kept p] s1)
      else s)"

definition run :: "variant \<Rightarrow> int \<Rightarrow> bot \<Rightarrow> event list \<Rightarrow> bot" where
  "run v n s evs = foldl (step v n) s evs"

text \<open>Readings of the trace.\<close>

definition enqueued :: "effect list \<Rightarrow> jsstring list" where
  "enqueued tr = concat (map (\<lambda>e. case e of Push x \<Rightarrow> [x] | _ \<Rightarrow> []) tr)"

definition dequeued :: "effect list \<Rightarrow> jsstring list" where
  "dequeued tr = concat (map (\<lambda>e. case e of Shift x \<Rightarrow> [x] | _ \<Rightarrow> []) tr)"

definition synthesized :: "effect list \<Rightarrow> jsstring list" where
  "synthesized tr = concat (map (\<lambda>e. case e of Synthesize x \<Rightarrow> [x] | _ \<Rightarrow> []) tr)"

definition played :: "effect list \<Rightarrow> jsstring list" where
  "played tr = concat (map (\<lambda>e. case e of Play x \<Rightarrow> [x] | _ \<Rightarrow> []) tr)"

definition errors :: "effect list \<Rightarrow> nat" where
  "errors tr = length (filter (\<lambda>e. e = LogError) tr)"

text \<open>
  The player as the trace shows it: \<open>(ok, busy)\<close>, where \<open>busy\<close> holds from a \<open>Play\<close> to the
  next \<open>IdleSeen\<close> and \<open>ok\<close> turns false for good when a \<open>Play\<close> comes while busy.
\<close>

definition player_step :: "bool \<times> bool \<Rightarrow> effect \<Rightarrow> bool \<times> bool" where
  "player_step st e =
     (case e of
        Play x \<Rightarrow> (fst st \<and> \<not> snd st, True)
      | IdleSeen \<Rightarrow> (fst st, False)
      | _ \<Rightarrow> st)"

definition player_log :: "effect list \<Rightarrow> bool \<times> bool" where
  "player_log tr = foldl player_step (True, False) tr"

definition no_overlap :: "effect list \<Rightarrow> bool" where
  "no_overlap tr = fst (player_log tr)"

text \<open>
  The files in the hands of the loop, as the trace shows them: \<open>(ok, held)\<close>, where \<open>held\<close>
  is the set of files that the synthesizer has returned and on which \<open>fs.unlink\<close> has not
  been called yet, and \<open>ok\<close> turns false for good when an item is taken from the queue while
  such a file is held.
\<close>

definition held_step :: "bool \<times> path set \<Rightarrow> effect \<Rightarrow> bool \<times> path set" where
  "held_step st e =
     (case e of
        Wrote p \<Rightarrow> (fst st, insert p (snd st))
      | Unlink p \<Rightarrow> (fst st, snd st - {p})
      | Shift x \<Rightarrow> (fst st \<and> snd st = {}, snd st)
      | _ \<Rightarrow> st)"

definition held_log :: "effect list \<Rightarrow> bool \<times> path set" where
  "held_log tr = foldl held_step (True, {}) tr"

text \<open>The files that the trace shows to have been left behind: by an unlink that failed, or
  by a synthesis that failed.\<close>

definition leftover :: "effect list \<Rightarrow> path set" where
  "leftover tr = \<Union> (set (map (\<lambda>e. case e of Kept p \<Rightarrow> {p} | Stray p \<Rightarrow> {p} | _ \<Rightarrow> {}) tr))"

text \<open>The files of the items in flight.\<close>

definition inflight :: "bot \<Rightarrow> path set" where
  "inflight s = \<Union> (set_option ` mp3Path ` set (tasks s))"

text \<open>The items that a list of events asks to be spoken, in call order.\<close>

definition requests :: "variant \<Rightarrow> int \<Rightarrow> event list \<Rightarrow> jsstring list" where
  "requests v n evs =
     concat (map (\<lambda>e. case e of
                         Speak tx \<Rightarrow>
                           (case v of
                              Remote \<Rightarrow> (if cleanText tx = [] then [] else [clip n (cleanText tx)])
                            | Local \<Rightarrow> [clip 400 tx])
                       | _ \<Rightarrow> []) evs)"

text \<open>
  The items that still wait to be played: the item in flight unless it is playing, then
  the queue. And the events in which nothing fails.
\<close>

definition waiting :: "bot \<Rightarrow> jsstring list" where
  "waiting s = map item (filter (\<lambda>t. phase t \<noteq> Playing) (tasks s)) @ queue s"

fun succeeds :: "event \<Rightarrow> bool" where
  "succeeds (Speak tx) = True"
| "succeeds (SynthResolved i p ok) = ok"
| "succeeds (SynthRejected i f) = False"
| "succeeds (ProbeResolved i ok) = ok"
| "succeeds (ProbeRejected i) = False"
| "succeeds (PlayerIdle i) = True"
| "succeeds (UnlinkDone p ok) = True"





section \<open>The voice connection\<close>

datatype chtype = GuildText | GuildVoice | GuildStageVoice | OtherChannel

record channel =
  chId :: nat
  chType :: chtype
  chGuild :: nat
  meSuppressed :: bool

text \<open>\<open>guild.channels\<close>: the cache, and what \<open>fetch\<close> resolves to (\<open>None\<close> when it rejects,
  which \<open>.catch(() => null)\<close> turns into \<open>null\<close>).\<close>

record guild =
  cache :: "nat \<rightharpoonup> channel"
  fetch :: "nat \<rightharpoonup> channel"

text \<open>The argument of \<open>ensureJoinedVC\<close>: a member (with its guild and \<open>voice.channel\<close>) or a
  guild.\<close>

datatype memberOrGuild = Member guild "channel option" | Guild guild

text \<open>A voice connection object: its identity and its \<open>joinConfig\<close>.\<close>

record conn =
  connId :: nat
  channelId :: nat
  guildId :: nat

datatype vop = Join nat nat | Destroy nat | Subscribe nat | Unsuppress | Warn | LogFail

text \<open>
  The module-level \<open>connection\<close>, with the state of the voice library: the connections
  created and not destroyed so far (\<open>live\<close>), the connection that the library keeps for
  each guild (\<open>tracked\<close>, what \<open>getVoiceConnection(guildId)\<close> returns), the identity of the
  next connection object (\<open>fresh\<close>), and the calls made on the library (\<open>vlog\<close>).
\<close>

record voice =
  connection :: "conn option"
  live :: "nat set"
  tracked :: "nat \<rightharpoonup> conn"
  fresh :: nat
  vlog :: "vop list"

definition vinit :: voice where
  "vinit = \<lparr>connection = None, live = {}, tracked = Map.empty, fresh = 0, vlog = []\<rparr>"

definition vemit :: "vop list \<Rightarrow> voice \<Rightarrow> voice" where
  "vemit ops s = s\<lparr>vlog := vlog s @ ops\<rparr>"

text \<open>
  \<open>try { connection.destroy(); } catch {}\<close>: the library stops tracking the connection of
  that guild; on a connection that is destroyed already the call throws and changes
  nothing.
\<close>

definition destroy :: "conn \<Rightarrow> voice \<Rightarrow> voice" where
  "destroy c s =
     vemit [Destroy (connId c)]
       (if connId c \<in> live s
        then s\<lparr>live := live s - {connId c}, tracked := (tracked s)(guildId c := None)\<rparr>
        else s)"

text \<open>
  \<open>connection = joinVoiceChannel({channelId: vc.id, guildId: vc.guild.id, ...})\<close>. The
  library keeps one connection for each guild. Where it has one that is not destroyed, it
  sends the join for the new channel on that connection and returns the same object, whose
  \<open>joinConfig.channelId\<close> is still the old one when the call returns. Otherwise it creates a
  connection with the given \<open>joinConfig\<close> and tracks it.
\<close>

definition joinVoiceChannel :: "channel \<Rightarrow> voice \<Rightarrow> voice" where
  "joinVoiceChannel vc s =
     vemit [Join (chId vc) (chGuild vc)]
       (case tracked s (chGuild vc) of
          Some c \<Rightarrow> s\<lparr>connection := Some c\<rparr>
        | None \<Rightarrow>
            s\<lparr>connection := Some \<lparr>connId = fresh s, channelId = chId vc, guildId = chGuild vc\<rparr>,
              live := insert (fresh s) (live s),
              tracked := (tracked s)(chGuild vc \<mapsto>
                           \<lparr>connId = fresh s, channelId = chId vc, guildId = chGuild vc\<rparr>),
              fresh := Suc (fresh s)\<rparr>)"

text \<open>The first part of \<open>ensureJoinedVC\<close>: which voice channel to join, if any.\<close>

definition findVC :: "nat option \<Rightarrow> memberOrGuild \<Rightarrow> voice \<Rightarrow> voice \<times> channel option" where
  "findVC fixedId mg s =
     (case fixedId of
        Some fid \<Rightarrow>
          (let g = (case mg of Member g ch \<Rightarrow> g | Guild g \<Rightarrow> g);
               vc = (case cache g fid of Some c \<Rightarrow> Some c | None \<Rightarrow> fetch g fid)
           in case vc of
                None \<Rightarrow> (vemit [Warn] s, None)
              | Some c \<Rightarrow>
                  if chType c \<noteq> GuildVoice \<and> chType c \<noteq> GuildStageVoice
                  then (vemit [Warn] s, None) else (s, Some c))
      | None \<Rightarrow> (s, case mg of Member g ch \<Rightarrow> ch | Guild g \<Rightarrow> None))"

text \<open>
  The rest of \<open>ensureJoinedVC\<close> once the early return has not been taken. Only \<open>index.js\<close>
  destroys an old connection before it joins (\<open>destroyOld\<close>: \<open>try { if (connection)
  connection.destroy(); } catch {}\<close> and \<open>connection = null\<close>). \<open>ready\<close> tells whether \<open>entersState\<close>
  resolves within its 15 seconds.
\<close>

definition destroyOld :: "voice \<Rightarrow> voice" where
  "destroyOld s =
     (case connection s of None \<Rightarrow> s | Some c \<Rightarrow> destroy c s)\<lparr>connection := None\<rparr>"

definition joinVC :: "variant \<Rightarrow> voice \<Rightarrow> channel \<Rightarrow> bool \<Rightarrow> voice \<times> conn option" where
  "joinVC v s vc ready =
     (let s1 = (case v of Remote \<Rightarrow> destroyOld s | Local \<Rightarrow> s);
          s2 = joinVoiceChannel vc s1
      in if ready then
           (let s3 = (case connection s2 of
                        None \<Rightarrow> s2
                      | Some c \<Rightarrow> vemit [Subscribe (connId c)] s2);
                s4 = (if chType vc = GuildStageVoice \<and> meSuppressed vc
                      then vemit [Unsuppress] s3 else s3)
            in (s4, connection s4))
         else
           (let s3 = vemit [LogFail] s2;
                s4 = (case connection s3 of None \<Rightarrow> s3 | Some c \<Rightarrow> destroy c s3)
            in (s4\<lparr>connection := None\<rparr>, None)))"

definition ensureJoinedVC ::
  "variant \<Rightarrow> nat option \<Rightarrow> voice \<Rightarrow> memberOrGuild \<Rightarrow> bool \<Rightarrow> voice \<times> conn option" where
  "ensureJoinedVC v fixedId s mg ready =
     (case findVC fixedId mg s of
        (s0, None) \<Rightarrow> (s0, None)
      | (s0, Some vc) \<Rightarrow>
          (case connection s0 of
             None \<Rightarrow> joinVC v s0 vc ready
           | Some c \<Rightarrow> if channelId c = chId vc then (s0, Some c) else joinVC v s0 vc ready))"

text \<open>The \<open>leave\<close> command.\<close>

definition leave :: "voice \<Rightarrow> voice" where
  "leave s = (case connection s of None \<Rightarrow> s | Some c \<Rightarrow> (destroy c s)\<lparr>connection := None\<rparr>)"


section \<open>The handlers\<close>

record config =
  TARGET_TEXT_CHANNEL_ID :: nat
  FIXED_VC_ID :: "nat option"
  MAX_LEN :: int
  SPEAK_PREFIX :: jsstring

record message =
  authorBot :: bool
  username :: jsstring
  displayName :: "jsstring option"
  channelType :: chtype
  channelOf :: nat
  content :: jsstring
  guildOf :: guild
  memberVoice :: "channel option"

record world =
  voiceOf :: voice
  botOf :: bot

text \<open>\<open>const ok = connection || (await ensureJoinedVC(FIXED_VC_ID ? guild : member))\<close>\<close>

definition connectionOrJoin ::
  "variant \<Rightarrow> config \<Rightarrow> voice \<Rightarrow> guild \<Rightarrow> channel option \<Rightarrow> bool \<Rightarrow> voice \<times> conn option" where
  "connectionOrJoin v cfg s g ch ready =
     (case connection s of
        Some c \<Rightarrow> (s, Some c)
      | None \<Rightarrow>
          ensureJoinedVC v (FIXED_VC_ID cfg) s
            (case FIXED_VC_ID cfg of Some fid \<Rightarrow> Guild g | None \<Rightarrow> Member g ch) ready)"

text \<open>\<open>/^[!/]/.test(message.content)\<close>\<close>

definition isCommand :: "jsstring \<Rightarrow> bool" where
  "isCommand s = (case s of [] \<Rightarrow> False | c # cs \<Rightarrow> oneOf ''!/'' c)"

text \<open>
  The \<open>MessageCreate\<close> handler, up to the end of the turn in which it calls \<open>speak\<close>.
  The local variant speaks \<open>display said: content\<close> without the prefix.
\<close>

definition onMessageCreate :: "variant \<Rightarrow> config \<Rightarrow> world \<Rightarrow> message \<Rightarrow> bool \<Rightarrow> world" where
  "onMessageCreate v cfg w m ready =
     (if authorBot m then w
      else if channelType m \<noteq> GuildText then w
      else if channelOf m \<noteq> TARGET_TEXT_CHANNEL_ID cfg then w
      else if isCommand (content m) then w
      else
        (case connectionOrJoin v cfg (voiceOf w) (guildOf m) (memberVoice m) ready of
           (vs, None) \<Rightarrow> w\<lparr>voiceOf := vs\<rparr>
         | (vs, Some ok) \<Rightarrow>
             (let display = (case displayName m of
                               None \<Rightarrow> username m
                             | Some d \<Rightarrow> if d = [] then username m else d);
                  cleaned = cleanText (content m)
              in if cleaned = [] then w\<lparr>voiceOf := vs\<rparr>
                 else
                   (let toSay = (case v of
                                   Remote \<Rightarrow> SPEAK_PREFIX cfg @ display @ js '' said: '' @ cleaned
                                 | Local \<Rightarrow> display @ js '' said: '' @ cleaned)
                    in w\<lparr>voiceOf := vs, botOf := speak v (MAX_LEN cfg) (botOf w) toSay\<rparr>))))"

text \<open>
  The \<open>say\<close> command: \<open>index.js\<close> calls \<open>speak(`${SPEAK_PREFIX}${text}`)\<close>, the local
  variant \<open>speak(cleanText(text))\<close>.
\<close>

definition onSay ::
  "variant \<Rightarrow> config \<Rightarrow> world \<Rightarrow> jsstring \<Rightarrow> guild \<Rightarrow> channel option \<Rightarrow> bool \<Rightarrow> world" where
  "onSay v cfg w tx g ch ready =
     (case connectionOrJoin v cfg (voiceOf w) g ch ready of
        (vs, None) \<Rightarrow> w\<lparr>voiceOf := vs\<rparr>
      | (vs, Some ok) \<Rightarrow>
          w\<lparr>voiceOf := vs,
            botOf := speak v (MAX_LEN cfg) (botOf w)
                       (case v of Remote \<Rightarrow> SPEAK_PREFIX cfg @ tx | Local \<Rightarrow> cleanText tx)\<rparr>)"


section \<open>Invariants of the speak queue\<close>

text \<open>
  The order of playback: what has been played is a subsequence of what has been taken from
  the queue, and the item in flight is the last one taken.
\<close>

definition order_ok :: "bot \<Rightarrow> bool" where
  "order_ok s =
     (case tasks s of
        [] \<Rightarrow> subseq (played (trace s)) (dequeued (trace s))
      | t # _ \<Rightarrow>
          (\<exists>d. dequeued (trace s) = d @ [item t] \<and>
             (if phase t = Playing
              then (\<exists>pl. played (trace s) = pl @ [item t] \<and> subseq pl d)
              else subseq (played (trace s)) d)))"

text \<open>What holds in the middle of a turn, with task \<open>t\<close> running: before \<open>finally\<close>, and
  before \<open>player.play\<close>.\<close>

definition pre_finish :: "task \<Rightarrow> bot \<Rightarrow> bool" where
  "pre_finish t s \<longleftrightarrow>
     length (tasks s) = 1 \<and> isSpeaking s \<and>
     files s \<subseteq> set_option (mp3Path t) \<union> unlinking s \<union> leftover (trace s) \<and>
     enqueued (trace s) = dequeued (trace s) @ queue s \<and>
     synthesized (trace s) = dequeued (trace s) \<and>
     player_log (trace s) = (True, False) \<and>
     held_log (trace s) = (True, set_option (mp3Path t)) \<and>
     subseq (played (trace s)) (dequeued (trace s))"

definition pre_play :: "task \<Rightarrow> bot \<Rightarrow> bool" where
  "pre_play t s \<longleftrightarrow>
     length (tasks s) = 1 \<and> isSpeaking s \<and>
     files s \<subseteq> set_option (mp3Path t) \<union> unlinking s \<union> leftover (trace s) \<and>
     enqueued (trace s) = dequeued (trace s) @ queue s \<and>
     synthesized (trace s) = dequeued (trace s) \<and>
     player_log (trace s) = (True, False) \<and>
     held_log (trace s) = (True, set_option (mp3Path t)) \<and>
     (\<exists>d. dequeued (trace s) = d @ [item t] \<and> subseq (played (trace s)) d)"

text \<open>What holds between turns.\<close>

definition inv :: "bot \<Rightarrow> bool" where
  "inv s \<longleftrightarrow>
     length (tasks s) \<le> 1 \<and>
     (isSpeaking s \<longleftrightarrow> tasks s \<noteq> []) \<and>
     (tasks s = [] \<longrightarrow> queue s = []) \<and>
     files s \<subseteq> inflight s \<union> unlinking s \<union> leftover (trace s) \<and>
     (\<forall>t \<in> set (tasks s). phase t = Synth \<longrightarrow> mp3Path t = None) \<and>
     enqueued (trace s) = dequeued (trace s) @ queue s \<and>
     synthesized (trace s) = dequeued (trace s) \<and>
     player_log (trace s) = (True, \<exists>t \<in> set (tasks s). phase t = Playing) \<and>
     held_log (trace s) = (True, inflight s) \<and>
     order_ok s"


text \<open>The voice connection of \<open>index.js\<close> between calls: the only connection alive is the one
  that \<open>connection\<close> holds.\<close>

definition vinv :: "voice \<Rightarrow> bool" where
  "vinv s \<longleftrightarrow>
     live s = set_option (map_option connId (connection s)) \<and> (\<forall>i \<in> live s. i < fresh s) \<and>
     tracked s = (case connection s of None \<Rightarrow> Map.empty | Some c \<Rightarrow> [guildId c \<mapsto> c])"


section \<open>The speak queue: proofs\<close>

lemma readers_append [simp]:
  "enqueued (a @ b) = enqueued a @ enqueued b"
  "dequeued (a @ b) = dequeued a @ dequeued b"
  "synthesized (a @ b) = synthesized a @ synthesized b"
  "played (a @ b) = played a @ played b"
  "errors (a @ b) = errors a + errors b"
  "player_log (a @ b) = foldl player_step (player_log a) b"
  "held_log (a @ b) = foldl held_step (held_log a) b"
  "leftover (a @ b) = leftover a \<union> leftover b"
  by (simp_all add: enqueued_def dequeued_def synthesized_def played_def errors_def player_log_def
      held_log_def leftover_def)

lemma readers_Nil [simp]:
  "enqueued [] = []" "dequeued [] = []" "synthesized [] = []" "played [] = []" "errors [] = 0"
  "player_log [] = (True, False)" "held_log [] = (True, {})" "leftover [] = {}"
  by (simp_all add: enqueued_def dequeued_def synthesized_def played_def errors_def player_log_def
      held_log_def leftover_def)

lemma readers_Cons [simp]:
  "enqueued (e # tr) = (case e of Push x \<Rightarrow> [x] | _ \<Rightarrow> []) @ enqueued tr"
  "dequeued (e # tr) = (case e of Shift x \<Rightarrow> [x] | _ \<Rightarrow> []) @ dequeued tr"
  "synthesized (e # tr) = (case e of Synthesize x \<Rightarrow> [x] | _ \<Rightarrow> []) @ synthesized tr"
  "played (e # tr) = (case e of Play x \<Rightarrow> [x] | _ \<Rightarrow> []) @ played tr"
  "errors (e # tr) = (if e = LogError then 1 else 0) + errors tr"
  "leftover (e # tr) = (case e of Kept p \<Rightarrow> {p} | Stray p \<Rightarrow> {p} | _ \<Rightarrow> {}) \<union> leftover tr"
  by (simp_all add: enqueued_def dequeued_def synthesized_def played_def errors_def
      leftover_def)

lemma inv_init: "inv init"
  by (simp add: inv_def init_def order_ok_def inflight_def)

lemmas queue_defs = speak_def speak_remote_def speak_local_def enqueue_def loop_def Let_def
  put_task_def play_def finally_next_def catch_def emit_def awaiting_def player_step_def
  held_step_def inflight_def

lemma inv_cases: "inv s \<Longrightarrow> tasks s = [] \<or> (\<exists>t. tasks s = [t])"
  by (cases "tasks s") (auto simp: inv_def inflight_def)

lemma inv_enqueue: "inv s \<Longrightarrow> inv (enqueue x s)"
  using inv_cases[of s]
  apply (auto simp: inv_def inflight_def queue_defs order_ok_def split: list.splits option.splits)
  done


lemma subseq_snoc_right: "subseq xs ys \<Longrightarrow> subseq xs (ys @ [y])"
  by (metis append_Nil2 list_emb_append_mono list_emb_Nil)

lemma subseq_snoc_both: "subseq xs ys \<Longrightarrow> subseq (xs @ [y]) (ys @ [y])"
  by (simp add: list_emb_append_mono)

lemma len1: "length xs = Suc 0 \<Longrightarrow> \<exists>x. xs = [x]"
  by (cases xs) auto

lemma inv_put_finish:
  assumes "pre_finish t s"
  shows "inv (put_task 0 (finally_next t s))"
proof -
  from assms obtain t0 where t0: "tasks s = [t0]"
    using len1[of "tasks s"] by (auto simp: pre_finish_def)
  show ?thesis
  proof (cases "queue s")
    case Nil
    then show ?thesis using assms t0
      by (cases "mp3Path t")
        (auto simp: pre_finish_def inv_def inflight_def finally_next_def loop_def put_task_def emit_def
          order_ok_def player_step_def held_step_def inflight_def)
  next
    case (Cons q qs)
    then show ?thesis using assms t0
      by (cases "mp3Path t")
        (auto simp: pre_finish_def inv_def inflight_def finally_next_def loop_def put_task_def emit_def
          order_ok_def player_step_def held_step_def inflight_def subseq_snoc_right)
  qed
qed

lemma pre_play_catch: "pre_play t s \<Longrightarrow> pre_finish t (catch s)"
  by (auto simp: pre_play_def pre_finish_def catch_def emit_def player_step_def held_step_def inflight_def subseq_snoc_right)

lemma inv_put_play:
  assumes "pre_play t s"
  shows "inv (put_task 0 (play ok t s))"
proof (cases ok)
  case True
  from assms obtain t0 where t0: "tasks s = [t0]"
    using len1[of "tasks s"] by (auto simp: pre_play_def)
  from assms obtain d where d: "dequeued (trace s) = d @ [item t]" "subseq (played (trace s)) d"
    by (auto simp: pre_play_def)
  show ?thesis using True assms t0 d
    by (simp add: pre_play_def inv_def play_def put_task_def emit_def order_ok_def player_step_def held_step_def inflight_def)
next
  case False
  then show ?thesis using inv_put_finish[OF pre_play_catch[OF assms]]
    by (simp add: play_def)
qed


lemma inv_single:
  assumes "inv s" "awaiting s i ph"
  obtains t where "tasks s = [t]" "i = 0" "phase t = ph"
proof -
  from assms obtain t where t: "tasks s = [t]"
    using inv_cases[of s] by (auto simp: awaiting_def)
  with assms have "i = 0" "phase t = ph" by (auto simp: awaiting_def)
  with t show ?thesis using that by blast
qed

lemma inv_pre_play:
  "inv s \<Longrightarrow> tasks s = [t] \<Longrightarrow> phase t \<noteq> Playing \<Longrightarrow> pre_play t s"
  by (auto simp: inv_def inflight_def pre_play_def order_ok_def)

lemma inv_pre_finish:
  "inv s \<Longrightarrow> tasks s = [t] \<Longrightarrow> phase t = Playing \<Longrightarrow> pre_finish t (emit [IdleSeen] s)"
  by (auto simp: inv_def pre_finish_def order_ok_def emit_def player_step_def held_step_def inflight_def subseq_snoc_both)

lemma inv_pre_play_path:
  "inv s \<Longrightarrow> tasks s = [t] \<Longrightarrow> phase t = Synth \<Longrightarrow>
   pre_play (t\<lparr>mp3Path := Some p\<rparr>) (emit [Wrote p] (s\<lparr>files := insert p (files s)\<rparr>))"
  by (auto simp: inv_def pre_play_def order_ok_def emit_def held_step_def inflight_def player_step_def)

lemma inv_pre_finish_failed:
  "inv s \<Longrightarrow> tasks s = [t] \<Longrightarrow> phase t = Synth \<Longrightarrow> pre_finish t (catch (synth_failed v f s))"
proof (cases f)
  case Early
  assume "inv s" "tasks s = [t]" "phase t = Synth"
  then show ?thesis using Early
    by (auto simp: inv_def inflight_def pre_finish_def order_ok_def synth_failed_def catch_def emit_def
        held_step_def inflight_def player_step_def subseq_snoc_right)
next
  case (Late p ok)
  assume "inv s" "tasks s = [t]" "phase t = Synth"
  then show ?thesis using Late
    by (cases v; cases ok)
      (auto simp: inv_def inflight_def pre_finish_def order_ok_def synth_failed_def catch_def emit_def
        held_step_def inflight_def player_step_def subseq_snoc_right)
qed

lemma inv_unlink_done:
  assumes "inv s"
  shows "inv (step v n s (UnlinkDone p ok))"
proof (cases "p \<in> unlinking s")
  case True
  from inv_cases[OF assms] show ?thesis
  proof
    assume "tasks s = []"
    then show ?thesis using True assms
      by (cases ok)
        (auto simp: inv_def Let_def emit_def order_ok_def held_step_def inflight_def
          player_step_def)
  next
    assume "\<exists>t. tasks s = [t]"
    then obtain t where "tasks s = [t]" by blast
    then show ?thesis using True assms
      by (cases ok)
        (auto simp: inv_def Let_def emit_def order_ok_def held_step_def inflight_def
          player_step_def)
  qed
next
  case False
  then show ?thesis using assms by simp
qed

lemma inv_step: "inv s \<Longrightarrow> inv (step v n s e)"
proof (cases e)
  case (Speak tx)
  assume "inv s"
  then show ?thesis using Speak
    by (cases v) (simp_all add: speak_def speak_remote_def speak_local_def Let_def inv_enqueue)
next
  case (SynthResolved i p ok)
  assume a: "inv s"
  show ?thesis
  proof (cases "awaiting s i Synth")
    case True
    from a True obtain t where t: "tasks s = [t]" "i = 0" "phase t = Synth"
      by (rule inv_single)
    show ?thesis
    proof (cases v)
      case Remote
      show ?thesis
      proof (cases ok)
        case True
        then show ?thesis using a t SynthResolved Remote \<open>awaiting s i Synth\<close>
          by (auto simp: inv_def inflight_def put_task_def order_ok_def Let_def emit_def held_step_def
              inflight_def player_step_def)
      next
        case False
        then show ?thesis
          using inv_put_finish[OF pre_play_catch[OF inv_pre_play_path[OF a t(1) t(3)]], of p]
            t SynthResolved Remote \<open>awaiting s i Synth\<close>
          by (simp add: Let_def)
      qed
    next
      case Local
      then show ?thesis
        using inv_put_play[OF inv_pre_play_path[OF a t(1) t(3)], of ok p] t SynthResolved True
        by (simp add: Let_def)
    qed
  next
    case False
    then show ?thesis using a SynthResolved by simp
  qed
next
  case (SynthRejected i f)
  assume a: "inv s"
  show ?thesis
  proof (cases "awaiting s i Synth")
    case True
    from a True obtain t where t: "tasks s = [t]" "i = 0" "phase t = Synth"
      by (rule inv_single)
    show ?thesis
      using inv_put_finish[OF inv_pre_finish_failed[OF a t(1) t(3)], of v f] t SynthRejected True
      by simp
  next
    case False
    then show ?thesis using a SynthRejected by simp
  qed
next
  case (ProbeResolved i ok)
  assume a: "inv s"
  show ?thesis
  proof (cases "awaiting s i Probe")
    case True
    from a True obtain t where t: "tasks s = [t]" "i = 0" "phase t = Probe"
      by (rule inv_single)
    then have "pre_play t s" using a by (simp add: inv_pre_play)
    then show ?thesis using inv_put_play t ProbeResolved True by simp
  next
    case False
    then show ?thesis using a ProbeResolved by simp
  qed
next
  case (ProbeRejected i)
  assume a: "inv s"
  show ?thesis
  proof (cases "awaiting s i Probe")
    case True
    from a True obtain t where t: "tasks s = [t]" "i = 0" "phase t = Probe"
      by (rule inv_single)
    then have "pre_play t s" using a by (simp add: inv_pre_play)
    then show ?thesis using inv_put_finish[OF pre_play_catch] t ProbeRejected True by simp
  next
    case False
    then show ?thesis using a ProbeRejected by simp
  qed
next
  case (PlayerIdle i)
  assume a: "inv s"
  show ?thesis
  proof (cases "awaiting s i Playing")
    case True
    from a True obtain t where t: "tasks s = [t]" "i = 0" "phase t = Playing"
      by (rule inv_single)
    then have "pre_finish t (emit [IdleSeen] s)" using a by (simp add: inv_pre_finish)
    then show ?thesis using inv_put_finish t PlayerIdle True by simp
  next
    case False
    then show ?thesis using a PlayerIdle by simp
  qed
next
  case (UnlinkDone p ok)
  assume "inv s"
  then show ?thesis using UnlinkDone by (simp only: inv_unlink_done)
qed

lemma inv_run: "inv s \<Longrightarrow> inv (run v n s evs)"
  unfolding run_def by (induction evs arbitrary: s) (simp_all add: inv_step)

lemma inv_reach: "inv (run v n init evs)"
  by (rule inv_run[OF inv_init])

lemma enqueued_put_task: "enqueued (trace (put_task i r)) = enqueued (trace (fst r))"
  by (cases r) (simp add: put_task_def split: option.splits)

lemma enqueued_loop: "enqueued (trace (fst (loop s))) = enqueued (trace s)"
  by (simp add: loop_def emit_def split: list.splits)

lemma enqueued_finally_next: "enqueued (trace (fst (finally_next t s))) = enqueued (trace s)"
  by (simp add: finally_next_def enqueued_loop emit_def split: option.splits)

lemma enqueued_play: "enqueued (trace (fst (play ok t s))) = enqueued (trace s)"
  by (simp add: play_def enqueued_finally_next catch_def emit_def)

lemma enqueued_enqueue: "enqueued (trace (enqueue x s)) = enqueued (trace s) @ [x]"
  by (simp add: enqueue_def Let_def loop_def emit_def split: list.splits)

lemma enqueued_synth_failed: "enqueued (trace (synth_failed v f s)) = enqueued (trace s)"
  by (simp add: synth_failed_def emit_def split: failure.splits variant.splits)

lemma enqueued_step:
  "enqueued (trace (step v n s e)) = enqueued (trace s) @ requests v n [e]"
proof (cases e)
  case (Speak tx)
  then show ?thesis
    by (cases v)
      (simp_all add: requests_def speak_def speak_remote_def speak_local_def Let_def
        enqueued_enqueue)
next
  case (SynthResolved i p ok)
  then show ?thesis
    by (cases v)
      (simp_all add: requests_def Let_def enqueued_put_task enqueued_play
        enqueued_finally_next catch_def emit_def)
next
  case (SynthRejected i f)
  then show ?thesis
    by (simp add: requests_def enqueued_put_task enqueued_finally_next catch_def emit_def
        enqueued_synth_failed)
next
  case (ProbeResolved i ok)
  then show ?thesis
    by (simp add: requests_def enqueued_put_task enqueued_play)
next
  case (ProbeRejected i)
  then show ?thesis
    by (simp add: requests_def enqueued_put_task enqueued_finally_next catch_def emit_def)
next
  case (PlayerIdle i)
  then show ?thesis
    by (simp add: requests_def enqueued_put_task enqueued_finally_next emit_def)
next
  case (UnlinkDone p ok)
  then show ?thesis
    by (simp add: requests_def Let_def emit_def)
qed

lemma requests_append: "requests v n (xs @ ys) = requests v n xs @ requests v n ys"
  by (simp add: requests_def)

lemma enqueued_run:
  "enqueued (trace (run v n s evs)) = enqueued (trace s) @ requests v n evs"
proof (induction evs arbitrary: s)
  case Nil
  show ?case by (simp add: run_def requests_def)
next
  case (Cons e evs)
  have "requests v n (e # evs) = requests v n [e] @ requests v n evs"
    using requests_append[of v n "[e]" evs] by simp
  then show ?case using Cons[of "step v n s e"] by (simp add: run_def enqueued_step)
qed

lemma order_ok_subseq: "order_ok s \<Longrightarrow> subseq (played (trace s)) (dequeued (trace s))"
  by (cases "tasks s")
    (auto simp: order_ok_def subseq_snoc_right subseq_snoc_both split: if_splits)

lemma speak_while_draining:
  assumes "isSpeaking s"
  shows "tasks (step v n s (Speak tx)) = tasks s \<and> isSpeaking (step v n s (Speak tx)) \<and>
         synthesized (trace (step v n s (Speak tx))) = synthesized (trace s) \<and>
         queue (step v n s (Speak tx)) = queue s @ requests v n [Speak tx]"
  using assms
  by (cases v)
    (simp_all add: requests_def speak_def speak_remote_def speak_local_def enqueue_def Let_def
      emit_def)

text \<open>
  C1. Whatever the callers and the settling promises do, in whatever order: at most one
  invocation of \<open>speak\<close> is inside the consumer loop, it is there exactly when
  \<open>isSpeaking\<close> is set, a non-empty queue always has its consumer, no \<open>player.play\<close>
  comes before the Idle event of the previous one, and a call of \<open>speak\<close> made while the
  loop is draining only appends its item to the queue: it starts no second loop and no
  synthesis.
\<close>

theorem single_consumer:
  "length (tasks (run v n init evs)) \<le> 1 \<and>
   (isSpeaking (run v n init evs) \<longleftrightarrow> tasks (run v n init evs) \<noteq> []) \<and>
   (queue (run v n init evs) \<noteq> [] \<longrightarrow> length (tasks (run v n init evs)) = 1) \<and>
   no_overlap (trace (run v n init evs)) \<and>
   (isSpeaking (run v n init evs) \<longrightarrow>
      tasks (run v n init (evs @ [Speak tx])) = tasks (run v n init evs) \<and>
      synthesized (trace (run v n init (evs @ [Speak tx])))
        = synthesized (trace (run v n init evs)) \<and>
      queue (run v n init (evs @ [Speak tx]))
        = queue (run v n init evs) @ requests v n [Speak tx])"
proof -
  let ?s = "run v n init evs"
  have i: "inv ?s" by (rule inv_reach)
  have r: "run v n init (evs @ [Speak tx]) = step v n ?s (Speak tx)"
    by (simp add: run_def)
  have 1: "length (tasks ?s) \<le> 1" using i by (simp add: inv_def)
  have 2: "isSpeaking ?s \<longleftrightarrow> tasks ?s \<noteq> []" using i by (simp add: inv_def)
  have 3: "queue ?s \<noteq> [] \<longrightarrow> length (tasks ?s) = 1"
    using i inv_cases[OF i] by (auto simp: inv_def)
  have 4: "no_overlap (trace ?s)" using i by (simp add: inv_def no_overlap_def)
  show ?thesis using 1 2 3 4 speak_while_draining[of ?s v n tx] unfolding r by blast
qed


lemma played_waiting_enqueue:
  assumes "inv s" "played (trace s) @ waiting s = enqueued (trace s)"
  shows "played (trace (enqueue x s)) @ waiting (enqueue x s) = enqueued (trace (enqueue x s))"
  using assms inv_cases[OF assms(1)]
  by (auto simp: inv_def inflight_def waiting_def enqueue_def loop_def Let_def emit_def
      split: list.splits)

lemma played_waiting_finish:
  assumes "tasks s = [t]" and "played (trace s) @ queue s = enqueued (trace s)"
  shows "played (trace (put_task 0 (finally_next t s)))
           @ waiting (put_task 0 (finally_next t s))
         = enqueued (trace (put_task 0 (finally_next t s)))"
  using assms
  by (cases "queue s"; cases "mp3Path t")
    (simp_all add: waiting_def finally_next_def loop_def put_task_def emit_def)

lemma played_waiting_play:
  assumes "tasks s = [t]" and "phase t \<noteq> Playing"
    and "played (trace s) @ waiting s = enqueued (trace s)"
  shows "played (trace (put_task 0 (play True t s))) @ waiting (put_task 0 (play True t s))
         = enqueued (trace (put_task 0 (play True t s)))"
  using assms by (simp add: waiting_def play_def put_task_def emit_def)

lemma played_waiting_step:
  assumes i: "inv s" and ok: "succeeds e"
    and pw: "played (trace s) @ waiting s = enqueued (trace s)"
  shows "played (trace (step v n s e)) @ waiting (step v n s e) = enqueued (trace (step v n s e))"
proof (cases e)
  case (Speak tx)
  then show ?thesis using played_waiting_enqueue[OF i pw] pw
    by (cases v) (simp_all add: speak_def speak_remote_def speak_local_def Let_def)
next
  case (SynthResolved j p b)
  show ?thesis
  proof (cases "awaiting s j Synth")
    case True
    from i True obtain t where t: "tasks s = [t]" "j = 0" "phase t = Synth"
      by (rule inv_single)
    let ?t = "t\<lparr>mp3Path := Some p\<rparr>"
    let ?s = "emit [Wrote p] (s\<lparr>files := insert p (files s)\<rparr>)"
    have b: "b" using ok SynthResolved by simp
    show ?thesis
    proof (cases v)
      case Remote
      then show ?thesis using t b SynthResolved True pw
        by (simp add: Let_def waiting_def put_task_def emit_def)
    next
      case Local
      have "tasks ?s = [t]" "phase ?t \<noteq> Playing"
        "played (trace ?s) @ waiting ?s = enqueued (trace ?s)"
        using t pw by (simp_all add: waiting_def emit_def)
      then have "played (trace (put_task 0 (play True ?t ?s))) @ waiting (put_task 0 (play True ?t ?s))
         = enqueued (trace (put_task 0 (play True ?t ?s)))"
        by (simp add: waiting_def play_def put_task_def emit_def)
      then show ?thesis using Local t b SynthResolved True by (simp add: Let_def)
    qed
  next
    case False
    then show ?thesis using pw SynthResolved by simp
  qed
next
  case (SynthRejected j f)
  then show ?thesis using ok by simp
next
  case (ProbeResolved j b)
  show ?thesis
  proof (cases "awaiting s j Probe")
    case True
    from i True obtain t where t: "tasks s = [t]" "j = 0" "phase t = Probe"
      by (rule inv_single)
    have b: "b" using ok ProbeResolved by simp
    have "phase t \<noteq> Playing" using t by simp
    from played_waiting_play[OF t(1) this pw] show ?thesis
      using t b ProbeResolved True by simp
  next
    case False
    then show ?thesis using pw ProbeResolved by simp
  qed
next
  case (ProbeRejected j)
  then show ?thesis using ok by simp
next
  case (PlayerIdle j)
  show ?thesis
  proof (cases "awaiting s j Playing")
    case True
    from i True obtain t where t: "tasks s = [t]" "j = 0" "phase t = Playing"
      by (rule inv_single)
    let ?s = "emit [IdleSeen] s"
    have "tasks ?s = [t]" "played (trace ?s) @ queue ?s = enqueued (trace ?s)"
      using t pw by (simp_all add: waiting_def emit_def)
    from played_waiting_finish[OF this] show ?thesis using t PlayerIdle True by simp
  next
    case False
    then show ?thesis using pw PlayerIdle by simp
  qed
next
  case (UnlinkDone p b)
  then show ?thesis using pw by (simp add: Let_def waiting_def emit_def)
qed

lemma played_waiting_run:
  assumes "inv s" and "list_all succeeds evs"
    and "played (trace s) @ waiting s = enqueued (trace s)"
  shows "played (trace (run v n s evs)) @ waiting (run v n s evs)
         = enqueued (trace (run v n s evs))"
  using assms
proof (induction evs arbitrary: s)
  case Nil
  then show ?case by (simp add: run_def)
next
  case (Cons e evs)
  have 1: "inv (step v n s e)" using Cons.prems(1) by (rule inv_step)
  have 2: "played (trace (step v n s e)) @ waiting (step v n s e)
            = enqueued (trace (step v n s e))"
    using played_waiting_step[OF Cons.prems(1) _ Cons.prems(3)] Cons.prems(2) by simp
  have 3: "list_all succeeds evs" using Cons.prems(2) by simp
  from Cons.IH[OF 1 3 2] show ?case by (simp add: run_def)
qed

lemma order_ok_last:
  "order_ok s \<Longrightarrow> tasks s \<noteq> [] \<Longrightarrow>
   dequeued (trace s) \<noteq> [] \<and> last (dequeued (trace s)) = item (hd (tasks s))"
  by (cases "tasks s") (auto simp: order_ok_def)

text \<open>
  C2. The items pushed are the requests in call order. The items handed to the
  synthesizer, followed by those still in the queue, are again the requests in call order:
  items are taken first in, first out, whenever they were enqueued. Nothing stays in the
  queue without a consumer, so with the loop at rest every request has been handed to the
  synthesizer; the item in flight is the one handed over last. What is played is played in
  that order; and as long as nothing fails, the items played, followed by the item in
  flight if it is not playing yet and by the queue, are exactly the requests in call order:
  with the loop at rest every request has been played, in the order of the calls.
\<close>

theorem fifo_order:
  "enqueued (trace (run v n init evs)) = requests v n evs \<and>
   synthesized (trace (run v n init evs)) @ queue (run v n init evs) = requests v n evs \<and>
   dequeued (trace (run v n init evs)) = synthesized (trace (run v n init evs)) \<and>
   subseq (played (trace (run v n init evs))) (synthesized (trace (run v n init evs))) \<and>
   (tasks (run v n init evs) = [] \<longrightarrow> queue (run v n init evs) = []) \<and>
   (tasks (run v n init evs) \<noteq> [] \<longrightarrow>
      synthesized (trace (run v n init evs)) \<noteq> [] \<and>
      last (synthesized (trace (run v n init evs))) = item (hd (tasks (run v n init evs)))) \<and>
   (list_all succeeds evs \<longrightarrow>
      played (trace (run v n init evs)) @ waiting (run v n init evs) = requests v n evs)"
proof -
  let ?s = "run v n init evs"
  have i: "inv ?s" by (rule inv_reach)
  have e: "enqueued (trace ?s) = requests v n evs"
    using enqueued_run[of v n init evs] by (simp add: init_def)
  have s: "synthesized (trace ?s) = dequeued (trace ?s)" using i by (simp add: inv_def)
  have q: "enqueued (trace ?s) = dequeued (trace ?s) @ queue ?s" using i by (simp add: inv_def)
  have o: "subseq (played (trace ?s)) (dequeued (trace ?s))"
    using i by (simp add: inv_def order_ok_subseq)
  have r: "tasks ?s = [] \<longrightarrow> queue ?s = []" using i by (simp add: inv_def)
  have l: "tasks ?s \<noteq> [] \<longrightarrow>
      dequeued (trace ?s) \<noteq> [] \<and> last (dequeued (trace ?s)) = item (hd (tasks ?s))"
    using i order_ok_last[of ?s] by (simp add: inv_def)
  have w0: "played (trace init) @ waiting init = enqueued (trace init)"
    by (simp add: init_def waiting_def)
  have p: "list_all succeeds evs \<longrightarrow> played (trace ?s) @ waiting ?s = requests v n evs"
    using played_waiting_run[OF inv_init _ w0, of evs v n] e by simp
  show ?thesis using e s q o r l p by simp
qed



theorem single_consumer_witness:
  "isSpeaking (run Remote 400 init
      [Speak (js ''hi''), Speak (js ''yo''), SynthResolved 0 7 True, ProbeResolved 0 True]) \<and>
   queue (run Remote 400 init
      [Speak (js ''hi''), Speak (js ''yo''), SynthResolved 0 7 True, ProbeResolved 0 True]) \<noteq> [] \<and>
   length (tasks (run Remote 400 init
      [Speak (js ''hi''), Speak (js ''yo''), SynthResolved 0 7 True, ProbeResolved 0 True])) = 1 \<and>
   no_overlap (trace (run Remote 400 init
      [Speak (js ''hi''), Speak (js ''yo''), SynthResolved 0 7 True, ProbeResolved 0 True])) \<and>
   tasks (run Remote 400 init
      ([Speak (js ''hi''), Speak (js ''yo''), SynthResolved 0 7 True, ProbeResolved 0 True]
        @ [Speak (js ''ok'')]))
     = tasks (run Remote 400 init
      [Speak (js ''hi''), Speak (js ''yo''), SynthResolved 0 7 True, ProbeResolved 0 True])"
proof -
  have h1: "isSpeaking (run Remote 400 init
      [Speak (js ''hi''), Speak (js ''yo''), SynthResolved 0 7 True, ProbeResolved 0 True])"
    by code_simp
  have h2: "queue (run Remote 400 init
      [Speak (js ''hi''), Speak (js ''yo''), SynthResolved 0 7 True, ProbeResolved 0 True]) \<noteq> []"
    by code_simp
  show ?thesis
    using h1 h2 single_consumer[of Remote 400
      "[Speak (js ''hi''), Speak (js ''yo''), SynthResolved 0 7 True, ProbeResolved 0 True]"
      "js ''ok''"]
    by blast
qed


theorem fifo_order_witness:
  "list_all succeeds
     [Speak (js ''A''), Speak (js ''B''), SynthResolved 0 5 True, ProbeResolved 0 True,
      Speak (js ''C''), PlayerIdle 0, SynthResolved 0 6 True, ProbeResolved 0 True,
      PlayerIdle 0, SynthResolved 0 7 True, ProbeResolved 0 True, PlayerIdle 0] \<and>
   tasks (run Remote 400 init
     [Speak (js ''A''), Speak (js ''B''), SynthResolved 0 5 True, ProbeResolved 0 True,
      Speak (js ''C''), PlayerIdle 0, SynthResolved 0 6 True, ProbeResolved 0 True,
      PlayerIdle 0, SynthResolved 0 7 True, ProbeResolved 0 True, PlayerIdle 0]) = [] \<and>
   queue (run Remote 400 init
     [Speak (js ''A''), Speak (js ''B''), SynthResolved 0 5 True, ProbeResolved 0 True,
      Speak (js ''C''), PlayerIdle 0, SynthResolved 0 6 True, ProbeResolved 0 True,
      PlayerIdle 0, SynthResolved 0 7 True, ProbeResolved 0 True, PlayerIdle 0]) = [] \<and>
   synthesized (trace (run Remote 400 init
     [Speak (js ''A''), Speak (js ''B''), SynthResolved 0 5 True, ProbeResolved 0 True,
      Speak (js ''C''), PlayerIdle 0, SynthResolved 0 6 True, ProbeResolved 0 True,
      PlayerIdle 0, SynthResolved 0 7 True, ProbeResolved 0 True, PlayerIdle 0]))
     = [js ''A'', js ''B'', js ''C''] \<and>
   played (trace (run Remote 400 init
     [Speak (js ''A''), Speak (js ''B''), SynthResolved 0 5 True, ProbeResolved 0 True,
      Speak (js ''C''), PlayerIdle 0, SynthResolved 0 6 True, ProbeResolved 0 True,
      PlayerIdle 0, SynthResolved 0 7 True, ProbeResolved 0 True, PlayerIdle 0]))
     = [js ''A'', js ''B'', js ''C''] \<and>
   tasks (run Local 400 init
     [Speak (js ''A''), Speak (js ''B''), SynthRejected 0 Early, Speak (js ''C'')])
     = [\<lparr>item = js ''B'', mp3Path = None, phase = Synth\<rparr>] \<and>
   synthesized (trace (run Local 400 init
     [Speak (js ''A''), Speak (js ''B''), SynthRejected 0 Early, Speak (js ''C'')]))
     = [js ''A'', js ''B''] \<and>
   queue (run Local 400 init
     [Speak (js ''A''), Speak (js ''B''), SynthRejected 0 Early, Speak (js ''C'')])
     = [js ''C'']"
proof -
  let ?E = "[Speak (js ''A''), Speak (js ''B''), SynthResolved 0 5 True, ProbeResolved 0 True,
      Speak (js ''C''), PlayerIdle 0, SynthResolved 0 6 True, ProbeResolved 0 True,
      PlayerIdle 0, SynthResolved 0 7 True, ProbeResolved 0 True, PlayerIdle 0]"
  let ?F = "[Speak (js ''A''), Speak (js ''B''), SynthRejected 0 Early, Speak (js ''C'')]"
  have a: "list_all succeeds ?E" by simp
  have t: "tasks (run Remote 400 init ?E) = []" by code_simp
  have r: "requests Remote 400 ?E = [js ''A'', js ''B'', js ''C'']" by code_simp
  have t2: "tasks (run Local 400 init ?F) = [\<lparr>item = js ''B'', mp3Path = None, phase = Synth\<rparr>]"
    by code_simp
  have q2: "queue (run Local 400 init ?F) = [js ''C'']" by code_simp
  have r2: "requests Local 400 ?F = [js ''A'', js ''B'', js ''C'']" by code_simp
  have q: "queue (run Remote 400 init ?E) = []"
    using fifo_order[of Remote 400 ?E] t by blast
  have s: "synthesized (trace (run Remote 400 init ?E)) = [js ''A'', js ''B'', js ''C'']"
    using fifo_order[of Remote 400 ?E] q r by simp
  have p: "played (trace (run Remote 400 init ?E)) = [js ''A'', js ''B'', js ''C'']"
    using fifo_order[of Remote 400 ?E] a t q r by (simp add: waiting_def)
  have s2: "synthesized (trace (run Local 400 init ?F)) = [js ''A'', js ''B'']"
    using fifo_order[of Local 400 ?F] q2 r2 by simp
  show ?thesis using a t q s p t2 s2 q2 by blast
qed








lemma clip_nonneg:
  "0 \<le> n \<Longrightarrow> clip n s = (if n < int (length s) then take (nat n) s @ ellipsis else s)"
  by (simp add: clip_def slice0_def)


text \<open>
  C7. With a maximum \<open>n\<close> (400 unless configured), \<open>speak\<close> of \<open>index.js\<close> queues, for a text
  whose sanitized form is longer than \<open>n\<close>, the first \<open>n\<close> code units of that form followed
  by the marker (a space and U+2026), and for a shorter one that form unchanged; the local
  variant does the same with the text it is given and the fixed maximum 400. Queued means:
  appended to the queue while the loop is draining, and otherwise put at the tail of the
  queue whose head the new loop takes at once (the item itself when the queue was empty).
\<close>

theorem speak_truncates:
  "0 \<le> n \<Longrightarrow>
   enqueued (trace (speak Remote n s tx))
     = enqueued (trace s) @
       (if cleanText tx = [] then []
        else if n < int (length (cleanText tx)) then [take (nat n) (cleanText tx) @ [32, 8230]]
        else [cleanText tx]) \<and>
   enqueued (trace (speak Local n s tx))
     = enqueued (trace s) @ [if 400 < length tx then take 400 tx @ [32, 8230] else tx] \<and>
   (cleanText tx \<noteq> [] \<and> isSpeaking s \<longrightarrow>
      tasks (speak Remote n s tx) = tasks s \<and>
      queue (speak Remote n s tx)
        = queue s @ [if n < int (length (cleanText tx))
                     then take (nat n) (cleanText tx) @ [32, 8230] else cleanText tx]) \<and>
   (cleanText tx \<noteq> [] \<and> \<not> isSpeaking s \<longrightarrow>
      tasks (speak Remote n s tx)
        = tasks s @
          [\<lparr>item = hd (queue s @ [if n < int (length (cleanText tx))
                                   then take (nat n) (cleanText tx) @ [32, 8230]
                                   else cleanText tx]),
            mp3Path = None, phase = Synth\<rparr>] \<and>
      queue (speak Remote n s tx)
        = tl (queue s @ [if n < int (length (cleanText tx))
                         then take (nat n) (cleanText tx) @ [32, 8230] else cleanText tx])) \<and>
   (isSpeaking s \<longrightarrow>
      tasks (speak Local n s tx) = tasks s \<and>
      queue (speak Local n s tx)
        = queue s @ [if 400 < length tx then take 400 tx @ [32, 8230] else tx]) \<and>
   (\<not> isSpeaking s \<longrightarrow>
      tasks (speak Local n s tx)
        = tasks s @
          [\<lparr>item = hd (queue s @ [if 400 < length tx then take 400 tx @ [32, 8230] else tx]),
            mp3Path = None, phase = Synth\<rparr>] \<and>
      queue (speak Local n s tx)
        = tl (queue s @ [if 400 < length tx then take 400 tx @ [32, 8230] else tx]))"
proof -
  assume n: "0 \<le> n"
  have q: "\<And>x. isSpeaking s \<Longrightarrow> tasks (enqueue x s) = tasks s \<and> queue (enqueue x s) = queue s @ [x]"
    by (simp add: enqueue_def Let_def emit_def)
  have i: "\<And>x. \<not> isSpeaking s \<Longrightarrow>
      tasks (enqueue x s) = tasks s @ [\<lparr>item = hd (queue s @ [x]), mp3Path = None, phase = Synth\<rparr>]
      \<and> queue (enqueue x s) = tl (queue s @ [x])"
    by (simp add: enqueue_def Let_def emit_def loop_def split: list.splits)
  show ?thesis
    using n q i
    by (simp add: speak_def speak_remote_def speak_local_def Let_def enqueued_enqueue
        clip_nonneg ellipsis_def)
qed

lemma replace_g_replicate:
  assumes "\<And>t. match_at p (a # t) = None"
  shows "replace_g p r (replicate k a) = replicate k a"
  by (induction k) (simp_all add: assms)

lemma cleanText_plain: "cleanText (replicate k 97) = replicate k 97"
proof -
  have m: "\<And>t. match_at mentionRe (97 # t) = None"
    and c: "\<And>t. match_at channelRe (97 # t) = None"
    and e: "\<And>t. match_at emojiRe (97 # t) = None"
    and u: "\<And>t. match_at urlRe (97 # t) = None"
    and w: "\<And>t. match_at spaceRe (97 # t) = None"
    by (simp_all add: mentionRe_def channelRe_def emojiRe_def urlRe_def spaceRe_def lit_def
        cu_def isSpace_def)
  have ns: "\<not> isSpace 97" by (simp add: isSpace_def)
  have d: "dropWhile isSpace (replicate k 97) = replicate k 97"
    by (cases k) (simp_all add: ns)
  show ?thesis
    by (simp add: cleanText_def replace_g_replicate m c e u w trim_def d ns)
qed

theorem speak_truncates_witness:
  "(0::int) \<le> 400 \<and> \<not> isSpeaking init \<and>
   enqueued (trace (speak Remote 400 init (replicate 450 97)))
     = [replicate 400 97 @ [32, 8230]] \<and>
   tasks (speak Remote 400 init (replicate 450 97))
     = [\<lparr>item = replicate 400 97 @ [32, 8230], mp3Path = None, phase = Synth\<rparr>] \<and>
   tasks (speak Local 400 init (replicate 450 97))
     = [\<lparr>item = replicate 400 97 @ [32, 8230], mp3Path = None, phase = Synth\<rparr>] \<and>
   isSpeaking (speak Remote 400 init (replicate 3 97)) \<and>
   queue (speak Remote 400 (speak Remote 400 init (replicate 3 97)) (replicate 450 97))
     = [replicate 400 97 @ [32, 8230]] \<and>
   queue (speak Local 400 (speak Remote 400 init (replicate 3 97)) (replicate 450 97))
     = [replicate 400 97 @ [32, 8230]] \<and>
   queue (speak Remote 400 (speak Remote 400 init (replicate 3 97)) (replicate 400 97))
     = [replicate 400 97]"
proof -
  let ?d = "speak Remote 400 init (replicate 3 97)"
  have c3: "cleanText (replicate 3 97) = replicate 3 97" by (rule cleanText_plain)
  have d: "isSpeaking ?d" "queue ?d = []"
    by (simp_all add: speak_def speak_remote_def c3 Let_def enqueue_def loop_def emit_def
        clip_def init_def)
  have i: "\<not> isSpeaking init" "queue init = []" "tasks init = []" by (simp_all add: init_def)
  show ?thesis
    using speak_truncates[of 400 init "replicate 450 97"]
      speak_truncates[of 400 ?d "replicate 450 97"]
      speak_truncates[of 400 ?d "replicate 400 97"] d i
    by (simp add: cleanText_plain init_def)
qed

section \<open>The voice connection and the handlers: proofs\<close>








text \<open>In \<open>index.js\<close> the old connection is destroyed before the new one is joined, and no
  two connections are alive at once.\<close>

lemma vinv_destroyOld:
  assumes "vinv s"
  shows "connection (destroyOld s) = None \<and> live (destroyOld s) = {} \<and>
         tracked (destroyOld s) = Map.empty \<and> fresh (destroyOld s) = fresh s"
  using assms
  by (cases "connection s") (simp_all add: destroyOld_def vinv_def destroy_def vemit_def)

lemma vinv_join_ready:
  assumes "connection s = None" "live s = {}" "tracked s = Map.empty" "ready"
  shows "vinv (fst (joinVC Local s vc ready))"
  using assms
  by (simp add: vinv_def joinVC_def destroyOld_def Let_def joinVoiceChannel_def vemit_def)

lemma vinv_join_failed:
  assumes "connection s = None" "live s = {}" "tracked s = Map.empty" "\<not> ready"
  shows "vinv (fst (joinVC Local s vc ready))"
  using assms
  by (simp add: vinv_def joinVC_def destroyOld_def Let_def joinVoiceChannel_def vemit_def destroy_def)

lemma joinVC_remote_destroyOld: "joinVC Remote s vc ready = joinVC Local (destroyOld s) vc ready"
  by (simp add: joinVC_def destroyOld_def)

lemma vinv_joinVC_remote: "vinv s \<Longrightarrow> vinv (fst (joinVC Remote s vc ready))"
  using vinv_destroyOld[of s] vinv_join_ready[of "destroyOld s" ready vc]
    vinv_join_failed[of "destroyOld s" ready vc]
  by (cases ready) (simp_all add: joinVC_remote_destroyOld)

lemma vinv_findVC: "vinv s \<Longrightarrow> vinv (fst (findVC fixedId mg s))"
  by (cases fixedId; cases mg)
    (simp_all add: vinv_def findVC_def Let_def vemit_def split: option.splits)

lemma vinv_ensureJoinedVC_remote:
  assumes "vinv s"
  shows "vinv (fst (ensureJoinedVC Remote fixedId s mg ready))"
proof (cases "findVC fixedId mg s")
  case (Pair s0 r)
  have v0: "vinv s0" using vinv_findVC[OF assms, of fixedId mg] Pair by simp
  show ?thesis
  proof (cases r)
    case None
    then show ?thesis using Pair v0 by (simp add: ensureJoinedVC_def)
  next
    case (Some vc)
    then show ?thesis using Pair v0 vinv_joinVC_remote[OF v0, of vc ready]
      by (cases "connection s0") (simp_all add: ensureJoinedVC_def)
  qed
qed

lemma vinv_leave: "vinv s \<Longrightarrow> vinv (leave s)"
  by (cases "connection s") (simp_all add: vinv_def leave_def destroy_def vemit_def)

lemma vinv_at_most_one: "vinv s \<Longrightarrow> card (live s) \<le> 1"
  by (cases "connection s") (simp_all add: vinv_def)

lemma remote_rejoin_destroys_first:
  assumes "connection s = Some c" "channelId c \<noteq> chId vc" "findVC fixedId mg s = (s, Some vc)"
  shows "take 2 (drop (length (vlog s)) (vlog (fst (ensureJoinedVC Remote fixedId s mg ready))))
           = [Destroy (connId c), Join (chId vc) (chGuild vc)]"
proof -
  let ?s1 = "(destroy c s)\<lparr>connection := None\<rparr>"
  have l: "vlog ?s1 = vlog s @ [Destroy (connId c)]" by (simp add: destroy_def vemit_def)
  have j: "\<exists>r. vlog (joinVoiceChannel vc ?s1) = vlog ?s1 @ [Join (chId vc) (chGuild vc)]"
    by (simp add: joinVoiceChannel_def vemit_def split: option.splits)
  have "\<exists>r. vlog (fst (joinVC Remote s vc ready))
              = vlog s @ [Destroy (connId c), Join (chId vc) (chGuild vc)] @ r"
    using assms(1) l
    by (cases ready; cases "tracked ?s1 (chGuild vc)")
      (simp_all add: joinVC_def destroyOld_def Let_def joinVoiceChannel_def vemit_def
        destroy_def)
  then show ?thesis using assms by (auto simp: ensureJoinedVC_def)
qed

text \<open>
  In the local variant a move within one guild gets the old connection back from the
  library, still on its old channel; a second call for the same channel then joins again.
\<close>

lemma local_move_joins_again:
  "vlog (fst (ensureJoinedVC Local None
       (fst (ensureJoinedVC Local None
          (fst (ensureJoinedVC Local None vinit
             (Member \<lparr>cache = Map.empty, fetch = Map.empty\<rparr>
                (Some \<lparr>chId = 10, chType = GuildVoice, chGuild = 1, meSuppressed = False\<rparr>)) True))
          (Member \<lparr>cache = Map.empty, fetch = Map.empty\<rparr>
             (Some \<lparr>chId = 20, chType = GuildVoice, chGuild = 1, meSuppressed = False\<rparr>)) True))
       (Member \<lparr>cache = Map.empty, fetch = Map.empty\<rparr>
          (Some \<lparr>chId = 20, chType = GuildVoice, chGuild = 1, meSuppressed = False\<rparr>)) True))
     = [Join 10 1, Subscribe 0, Join 20 1, Subscribe 0, Join 20 1, Subscribe 0]"
  by (simp add: ensureJoinedVC_def findVC_def joinVC_def destroyOld_def joinVoiceChannel_def vemit_def
      vinit_def Let_def)

text \<open>
  C5. The local variant, asked to join channel 10 and then channel 20 (of another guild),
  joins both and never destroys the first connection: two connections are alive.
\<close>

theorem local_rejoin_keeps_old_connection:
  "vlog (fst (ensureJoinedVC Local None
       (fst (ensureJoinedVC Local None vinit
          (Member \<lparr>cache = Map.empty, fetch = Map.empty\<rparr>
             (Some \<lparr>chId = 10, chType = GuildVoice, chGuild = 1, meSuppressed = False\<rparr>)) True))
       (Member \<lparr>cache = Map.empty, fetch = Map.empty\<rparr>
          (Some \<lparr>chId = 20, chType = GuildVoice, chGuild = 2, meSuppressed = False\<rparr>)) True))
     = [Join 10 1, Subscribe 0, Join 20 2, Subscribe 1] \<and>
   live (fst (ensureJoinedVC Local None
       (fst (ensureJoinedVC Local None vinit
          (Member \<lparr>cache = Map.empty, fetch = Map.empty\<rparr>
             (Some \<lparr>chId = 10, chType = GuildVoice, chGuild = 1, meSuppressed = False\<rparr>)) True))
       (Member \<lparr>cache = Map.empty, fetch = Map.empty\<rparr>
          (Some \<lparr>chId = 20, chType = GuildVoice, chGuild = 2, meSuppressed = False\<rparr>)) True))
     = {0, 1}"
  by (simp add: ensureJoinedVC_def findVC_def joinVC_def destroyOld_def joinVoiceChannel_def vemit_def
      vinit_def Let_def insert_commute)

text \<open>
  C10. A message whose author is a bot leaves the whole state as it is, whatever its
  channel and content: no join, nothing enqueued, nothing synthesized (both variants).
\<close>

theorem bot_messages_ignored:
  "authorBot m \<Longrightarrow> onMessageCreate v cfg w m ready = w"
  by (simp add: onMessageCreate_def)

theorem bot_messages_ignored_witness:
  "authorBot \<lparr>authorBot = True, username = js ''tts'', displayName = None,
       channelType = GuildText, channelOf = 5, content = js ''hello'',
       guildOf = \<lparr>cache = Map.empty, fetch = Map.empty\<rparr>,
       memberVoice = Some \<lparr>chId = 10, chType = GuildVoice, chGuild = 1, meSuppressed = False\<rparr>\<rparr> \<and>
   onMessageCreate Remote
     \<lparr>TARGET_TEXT_CHANNEL_ID = 5, FIXED_VC_ID = None, MAX_LEN = 400, SPEAK_PREFIX = []\<rparr>
     \<lparr>voiceOf = vinit, botOf = init\<rparr>
     \<lparr>authorBot = True, username = js ''tts'', displayName = None,
       channelType = GuildText, channelOf = 5, content = js ''hello'',
       guildOf = \<lparr>cache = Map.empty, fetch = Map.empty\<rparr>,
       memberVoice = Some \<lparr>chId = 10, chType = GuildVoice, chGuild = 1, meSuppressed = False\<rparr>\<rparr>
     True
   = \<lparr>voiceOf = vinit, botOf = init\<rparr>"
  using bot_messages_ignored[of
     "\<lparr>authorBot = True, username = js ''tts'', displayName = None,
       channelType = GuildText, channelOf = 5, content = js ''hello'',
       guildOf = \<lparr>cache = Map.empty, fetch = Map.empty\<rparr>,
       memberVoice = Some \<lparr>chId = 10, chType = GuildVoice, chGuild = 1, meSuppressed = False\<rparr>\<rparr>"
     Remote
     "\<lparr>TARGET_TEXT_CHANNEL_ID = 5, FIXED_VC_ID = None, MAX_LEN = 400, SPEAK_PREFIX = []\<rparr>"
     "\<lparr>voiceOf = vinit, botOf = init\<rparr>" True]
  by simp

lemma remote_skips_empty: "cleanText tx = [] \<Longrightarrow> speak Remote n s tx = s"
  by (simp add: speak_def speak_remote_def)

text \<open>
  C8. In the local variant, \<open>/say\<close> with a text that sanitizes to the empty string (here a
  custom emoji) enqueues the empty string, starts the consumer loop and hands the empty
  string to the synthesizer.
\<close>

theorem local_say_enqueues_empty:
  "cleanText (js ''<:wave:1>'') = [] \<and>
   botOf (onSay Local
     \<lparr>TARGET_TEXT_CHANNEL_ID = 5, FIXED_VC_ID = None, MAX_LEN = 400, SPEAK_PREFIX = []\<rparr>
     \<lparr>voiceOf = vinit, botOf = init\<rparr> (js ''<:wave:1>'')
     \<lparr>cache = Map.empty, fetch = Map.empty\<rparr>
     (Some \<lparr>chId = 10, chType = GuildVoice, chGuild = 1, meSuppressed = False\<rparr>) True)
   = \<lparr>queue = [], isSpeaking = True,
      tasks = [\<lparr>item = [], mp3Path = None, phase = Synth\<rparr>], files = {},
      unlinking = {}, trace = [Push [], Shift [], Synthesize []]\<rparr>"
proof -
  have c: "cleanText (js ''<:wave:1>'') = []" by code_simp
  show ?thesis unfolding c
    by (simp add: c onSay_def connectionOrJoin_def ensureJoinedVC_def findVC_def joinVC_def
        joinVoiceChannel_def vemit_def vinit_def Let_def speak_def speak_local_def enqueue_def
        clip_def loop_def emit_def init_def)
qed


section \<open>The sanitizer: proofs\<close>

lemma match_at_sound:
  "match_at p t = Some n \<Longrightarrow> n \<le> length t \<and> accepts p (take n t)"
proof (induction p t arbitrary: n rule: match_at.induct)
  case (1 s)
  then show ?case by (simp add: accepts.Done)
next
  case (2 p "is")
  then show ?case by simp
next
  case (3 p "is" c cs)
  then show ?case by (auto split: if_splits intro: accepts.Single)
next
  case (4 p "is")
  then show ?case by (auto intro: accepts.Skip)
next
  case (5 p "is" c cs)
  then show ?case
    by (auto split: if_splits option.splits intro: accepts.Skip accepts.Take)
next
  case (6 p "is")
  then show ?case by simp
next
  case (7 p "is" c cs)
  then show ?case
    by (auto split: if_splits option.splits intro: accepts.Last accepts.More)
qed

lemma match_at_complete:
  "accepts p w \<Longrightarrow> match_at p (w @ t) \<noteq> None"
proof (induction arbitrary: t rule: accepts.induct)
  case Done
  then show ?case by simp
next
  case (Single p c "is" w)
  then show ?case by simp
next
  case (Skip "is" w p)
  from Skip.IH[of t] obtain k where k: "match_at is (w @ t) = Some k" by auto
  show ?case
  proof (cases "w @ t")
    case Nil
    then show ?thesis using k by simp
  next
    case (Cons a list)
    then show ?thesis using k by (simp split: option.splits)
  qed
next
  case (Take p c "is" w)
  from Take.IH[of t] obtain k where k: "match_at is (w @ t) = Some k" by auto
  then show ?case using Take.hyps by simp
next
  case (Last p c "is" w)
  from Last.IH[of t] obtain k where k: "match_at is (w @ t) = Some k" by auto
  then show ?case using Last.hyps by (simp split: option.splits)
next
  case (More p c "is" w)
  from More.IH[of t] obtain k where k: "match_at (Plus p # is) (w @ t) = Some k" by auto
  then show ?case using More.hyps by simp
qed

lemma match_at_iff: "match_at p t \<noteq> None \<longleftrightarrow> (\<exists>w. accepts p w \<and> prefix w t)"
proof
  assume "match_at p t \<noteq> None"
  then obtain n where "match_at p t = Some n" by auto
  then have "accepts p (take n t)" using match_at_sound by blast
  then show "\<exists>w. accepts p w \<and> prefix w t" using take_is_prefix by blast
next
  assume "\<exists>w. accepts p w \<and> prefix w t"
  then obtain w z where "accepts p w" "t = w @ z" by (auto simp: prefix_def)
  then show "match_at p t \<noteq> None" using match_at_complete by blast
qed

lemma accepts_chars: "accepts p w \<Longrightarrow> c \<in> set w \<Longrightarrow> \<exists>it \<in> set p. cls it c"
  by (induction rule: accepts.induct) auto

lemma accepts_Nil_iff: "accepts [] w \<longleftrightarrow> w = []"
  by (auto elim: accepts.cases intro: accepts.Done)

lemma accepts_last:
  "accepts p w \<Longrightarrow> p = p0 @ [it] \<Longrightarrow> it = One q \<or> it = Plus q \<Longrightarrow> w \<noteq> [] \<and> q (last w)"
proof (induction arbitrary: p0 rule: accepts.induct)
  case Done
  then show ?case by simp
next
  case (Single p c "is" w)
  then show ?case by (cases p0) (auto simp: accepts_Nil_iff)
next
  case (Skip "is" w p)
  then show ?case by (cases p0) (auto simp: accepts_Nil_iff)
next
  case (Take p c "is" w)
  then show ?case by (cases p0) (auto simp: accepts_Nil_iff)
next
  case (Last p c "is" w)
  then show ?case by (cases p0) (auto simp: accepts_Nil_iff)
next
  case (More p c "is" w)
  then show ?case by (cases p0) (auto simp: accepts_Nil_iff)
qed

lemma match_at_positive:
  assumes "p \<in> {mentionRe, channelRe, emojiRe, urlRe, spaceRe}"
  shows "match_at p s \<noteq> Some 0"
proof
  assume "match_at p s = Some 0"
  then have a: "accepts p []" using match_at_sound by fastforce
  have "\<exists>p0 it q. p = p0 @ [it] \<and> (it = One q \<or> it = Plus q)"
    using assms
    by (auto simp: mentionRe_def channelRe_def emojiRe_def urlRe_def spaceRe_def
        intro: exI[of _ "butlast p"])
  then show False using accepts_last[OF a] by blast
qed

lemma accepts_replace_last:
  "accepts p w \<Longrightarrow> p = p0 @ [Plus q] \<Longrightarrow> w = y @ [c] \<Longrightarrow> q c' \<Longrightarrow> accepts p (y @ [c'])"
proof (induction arbitrary: p0 y rule: accepts.induct)
  case Done
  then show ?case by simp
next
  case (Single p d "is" w)
  then obtain p1 where p1: "p0 = One p # p1" "is = p1 @ [Plus q]" by (cases p0) auto
  have "w \<noteq> []" using accepts_last[OF Single.hyps(2) p1(2)] by simp
  then obtain y1 where y1: "y = d # y1" "w = y1 @ [c]" using Single.prems(2) by (cases y) auto
  show ?case using Single.IH[OF p1(2) y1(2) Single.prems(3)] Single.hyps(1) p1 y1 Single.prems(1)
    by (auto intro: accepts.Single)
next
  case (Skip "is" w p)
  then obtain p1 where p1: "p0 = Opt p # p1" "is = p1 @ [Plus q]" by (cases p0) auto
  show ?case using Skip.IH[OF p1(2) Skip.prems(2) Skip.prems(3)] p1 Skip.prems(1)
    by (auto intro: accepts.Skip)
next
  case (Take p d "is" w)
  then obtain p1 where p1: "p0 = Opt p # p1" "is = p1 @ [Plus q]" by (cases p0) auto
  have "w \<noteq> []" using accepts_last[OF Take.hyps(2) p1(2)] by simp
  then obtain y1 where y1: "y = d # y1" "w = y1 @ [c]" using Take.prems(2) by (cases y) auto
  show ?case using Take.IH[OF p1(2) y1(2) Take.prems(3)] Take.hyps(1) p1 y1 Take.prems(1)
    by (auto intro: accepts.Take)
next
  case (Last p d "is" w)
  show ?case
  proof (cases p0)
    case Nil
    then have e: "p = q" "is = []" using Last.prems(1) by auto
    then have "w = []" using Last.hyps(2) by (simp add: accepts_Nil_iff)
    then have "y = []" "d = c" using Last.prems(2) by auto
    then show ?thesis using e Last.prems(3) Last.prems(1) Nil
      by (auto intro: accepts.Last accepts.Done)
  next
    case (Cons i p1)
    then have p1: "is = p1 @ [Plus q]" "i = Plus p" using Last.prems(1) by auto
    have "w \<noteq> []" using accepts_last[OF Last.hyps(2) p1(1)] by simp
    then obtain y1 where y1: "y = d # y1" "w = y1 @ [c]" using Last.prems(2) by (cases y) auto
    show ?thesis using Last.IH[OF p1(1) y1(2) Last.prems(3)] Last.hyps(1) p1 y1 Last.prems(1)
      by (auto intro: accepts.Last)
  qed
next
  case (More p d "is" w)
  have "w \<noteq> []" using accepts_last[OF More.hyps(2) More.prems(1)] by simp
  then obtain y1 where y1: "y = d # y1" "w = y1 @ [c]" using More.prems(2) by (cases y) auto
  show ?case using More.IH[OF More.prems(1) y1(2) More.prems(3)] More.hyps(1) y1
    by (auto intro: accepts.More)
qed

lemma replace_g_prefix:
  assumes "r \<noteq> []"
  shows "prefix v (replace_g m r xs) \<Longrightarrow>
         prefix v xs \<or>
         (\<exists>a b. v = a @ b \<and> b \<noteq> [] \<and> (prefix b r \<or> prefix r b) \<and> prefix a xs \<and>
                match_at m (drop (length a) xs) \<noteq> None)"
proof (induction m r xs arbitrary: v rule: replace_g.induct)
  case (1 p r)
  then show ?case by simp
next
  case (2 p r c cs)
  show ?case
  proof (cases "match_at p (c # cs)")
    case None
    show ?thesis
    proof (cases v)
      case Nil
      then show ?thesis by simp
    next
      case (Cons d v1)
      then have d: "d = c" and pv: "prefix v1 (replace_g p r cs)"
        using "2.prems" None by auto
      from "2.IH"(1)[OF None pv] show ?thesis
      proof
        assume "prefix v1 cs"
        then show ?thesis using Cons d by simp
      next
        assume "\<exists>a b. v1 = a @ b \<and> b \<noteq> [] \<and> (prefix b r \<or> prefix r b) \<and> prefix a cs \<and>
                  match_at p (drop (length a) cs) \<noteq> None"
        then obtain a b where ab: "v1 = a @ b" "b \<noteq> []" "prefix b r \<or> prefix r b"
          "prefix a cs" "match_at p (drop (length a) cs) \<noteq> None" by blast
        have "v = (c # a) @ b \<and> b \<noteq> [] \<and> (prefix b r \<or> prefix r b) \<and> prefix (c # a) (c # cs) \<and>
                match_at p (drop (length (c # a)) (c # cs)) \<noteq> None"
          using ab Cons d by simp
        then show ?thesis by blast
      qed
    qed
  next
    case (Some k)
    show ?thesis
    proof (cases v)
      case Nil
      then show ?thesis by simp
    next
      case (Cons d v1)
      have "prefix v (r @ replace_g p r (drop (k - 1) cs))" using "2.prems" Some by simp
      then have "prefix v r \<or> prefix r v"
        by (metis prefix_append prefix_def prefix_order.order_refl prefix_same_cases)
      then have "v = [] @ v \<and> v \<noteq> [] \<and> (prefix v r \<or> prefix r v) \<and> prefix [] (c # cs) \<and>
              match_at p (drop (length ([]::jsstring)) (c # cs)) \<noteq> None"
        using Cons Some by simp
      then show ?thesis by blast
    qed
  qed
qed

lemma no_new_match:
  assumes g: "guarded p r m" and r: "r \<noteq> []" and n: "match_at p (x # xs) = None"
  shows "match_at p (x # replace_g m r xs) = None"
proof (rule ccontr)
  assume "match_at p (x # replace_g m r xs) \<noteq> None"
  then obtain w where w: "accepts p w" "prefix w (x # replace_g m r xs)"
    using match_at_iff by blast
  have no: "\<And>u. accepts p u \<Longrightarrow> prefix u (x # xs) \<Longrightarrow> False"
    using n match_at_iff by blast
  show False
  proof (cases w)
    case Nil
    then show False using no[of w] w by simp
  next
    case (Cons d v)
    then have d: "d = x" and pv: "prefix v (replace_g m r xs)" using w(2) by auto
    from replace_g_prefix[OF r pv] show False
    proof
      assume "prefix v xs"
      then show False using no[of w] w Cons d by simp
    next
      assume "\<exists>a b. v = a @ b \<and> b \<noteq> [] \<and> (prefix b r \<or> prefix r b) \<and> prefix a xs \<and>
                match_at m (drop (length a) xs) \<noteq> None"
      then obtain a b where ab: "v = a @ b" "b \<noteq> []" "prefix b r \<or> prefix r b" "prefix a xs"
        "match_at m (drop (length a) xs) \<noteq> None" by blast
      have acc: "accepts p ((x # a) @ b)" using w(1) Cons d ab(1) by simp
      have "match_at p ((x # a) @ drop (length a) xs) \<noteq> None"
        using g acc ab(2,3,5) unfolding guarded_def by blast
      moreover have "(x # a) @ drop (length a) xs = x # xs"
        using ab(4) by (auto simp: prefix_def)
      ultimately show False using n by simp
    qed
  qed
qed

lemma no_match_drop: "no_match p s \<Longrightarrow> no_match p (drop k s)"
proof (induction s arbitrary: k)
  case Nil
  then show ?case by simp
next
  case (Cons c cs)
  then show ?case by (cases k) simp_all
qed

lemma no_match_inert_append: "inert p r \<Longrightarrow> no_match p u \<Longrightarrow> no_match p (r @ u)"
proof (induction r)
  case Nil
  then show ?case by simp
next
  case (Cons c r)
  then show ?case by (simp add: inert_def)
qed

lemma no_match_preserved:
  assumes "guarded p r m" and "r \<noteq> []" and "inert p r" and "no_match p s"
  shows "no_match p (replace_g m r s)"
  using assms
proof (induction m r s rule: replace_g.induct)
  case (1 q r)
  then show ?case by simp
next
  case (2 q r c cs)
  show ?case
  proof (cases "match_at q (c # cs)")
    case None
    have "no_match p cs" using "2.prems"(4) by simp
    then have ih: "no_match p (replace_g q r cs)"
      using "2.IH"(1)[OF None "2.prems"(1,2,3)] by simp
    have "match_at p (c # replace_g q r cs) = None"
      using no_new_match[OF "2.prems"(1,2)] "2.prems"(4) by simp
    then show ?thesis using None ih by simp
  next
    case (Some k)
    have "no_match p (drop (k - 1) cs)" using "2.prems"(4) by (simp add: no_match_drop)
    then have "no_match p (replace_g q r (drop (k - 1) cs))"
      using "2.IH"(2)[OF Some "2.prems"(1,2,3)] by simp
    then show ?thesis using Some "2.prems"(3) by (simp add: no_match_inert_append)
  qed
qed

lemma no_match_self:
  assumes g: "guarded p r p" and r: "r \<noteq> []" and i: "inert p r"
  shows "no_match p (replace_g p r s)"
  using assms
proof (induction p r s rule: replace_g.induct)
  case (1 q r)
  then show ?case by simp
next
  case (2 q r c cs)
  show ?case
  proof (cases "match_at q (c # cs)")
    case None
    have ih: "no_match q (replace_g q r cs)"
      using "2.IH"(1)[OF None "2.prems"] by simp
    have "match_at q (c # replace_g q r cs) = None"
      using no_new_match[OF "2.prems"(1,2) None] by simp
    then show ?thesis using None ih by simp
  next
    case (Some k)
    have "no_match q (replace_g q r (drop (k - 1) cs))"
      using "2.IH"(2)[OF Some "2.prems"] by simp
    then show ?thesis using Some "2.prems"(3) by (simp add: no_match_inert_append)
  qed
qed

lemma replace_g_id: "no_match p s \<Longrightarrow> replace_g p r s = s"
  by (induction s) simp_all

lemma guarded_by_class:
  assumes "r \<noteq> []" and "\<forall>it \<in> set p. \<not> cls it (hd r)"
  shows "guarded p r m"
  unfolding guarded_def
proof (intro allI impI)
  fix y b t
  assume a: "accepts p (y @ b) \<and> b \<noteq> [] \<and> (prefix b r \<or> prefix r b) \<and> match_at m t \<noteq> None"
  then have "hd b = hd r" using assms(1) by (cases b; cases r) auto
  then have "hd r \<in> set (y @ b)" using a by (cases b) auto
  then have "\<exists>it \<in> set p. cls it (hd r)" using accepts_chars a by blast
  then show "match_at p (y @ t) \<noteq> None" using assms(2) by blast
qed

lemma a_link: "js ''a link'' = [97, 32, 108, 105, 110, 107]"
  and a_space: "js '' '' = [32]"
  by (simp_all add: js_def cu_def)

lemma link_overlap:
  assumes "b \<noteq> []" and "prefix b (js ''a link'') \<or> prefix (js ''a link'') b"
  shows "b = [97] \<or> (\<exists>b'. b = 97 # 32 # b')"
proof (cases b)
  case Nil
  then show ?thesis using assms by simp
next
  case (Cons c b1)
  then show ?thesis using assms(2) by (cases b1) (auto simp: a_link)
qed

lemma space_is_space: "isSpace 32" and a_not_space: "\<not> isSpace 97" and h_not_space: "\<not> isSpace 104"
  by (simp_all add: isSpace_def)

lemma class_mention:
  "\<forall>it \<in> set mentionRe. \<not> cls it 97" "\<forall>it \<in> set mentionRe. \<not> cls it 32"
  by (simp_all add: mentionRe_def lit_def oneOf_def js_def cu_def isDigit_def)

lemma class_channel:
  "\<forall>it \<in> set channelRe. \<not> cls it 97" "\<forall>it \<in> set channelRe. \<not> cls it 32"
  by (simp_all add: channelRe_def lit_def cu_def isDigit_def)

lemma class_emoji: "\<forall>it \<in> set emojiRe. \<not> cls it 32"
  by (simp add: emojiRe_def lit_def cu_def isDigit_def isWord_def)

lemma class_url: "\<forall>it \<in> set urlRe. \<not> cls it 32"
  by (simp add: urlRe_def lit_def cu_def notSpace_def isSpace_def)

lemma guarded_emoji_link: "guarded emojiRe (js ''a link'') m"
  unfolding guarded_def
proof (intro allI impI)
  fix y b t
  assume a: "accepts emojiRe (y @ b) \<and> b \<noteq> [] \<and>
             (prefix b (js ''a link'') \<or> prefix (js ''a link'') b) \<and> match_at m t \<noteq> None"
  then have acc: "accepts emojiRe (y @ b)" by simp
  from a link_overlap[of b] have "b = [97] \<or> (\<exists>b'. b = 97 # 32 # b')" by blast
  then have False
  proof
    assume b: "b = [97]"
    have "emojiRe = butlast emojiRe @ [One (lit CHR ''>'')]" by (simp add: emojiRe_def)
    from accepts_last[OF acc this] have "lit CHR ''>'' (last (y @ b))" by simp
    then show False using b by (simp add: lit_def cu_def)
  next
    assume "\<exists>b'. b = 97 # 32 # b'"
    then have "32 \<in> set (y @ b)" by auto
    then show False using accepts_chars[OF acc] class_emoji by blast
  qed
  then show "match_at emojiRe (y @ t) \<noteq> None" ..
qed

lemma match_url_starts: "match_at urlRe t \<noteq> None \<Longrightarrow> \<exists>t'. t = 104 # t'"
  by (cases t) (auto simp: urlRe_def lit_def cu_def split: if_splits)

lemma guarded_url_link: "guarded urlRe (js ''a link'') urlRe"
  unfolding guarded_def
proof (intro allI impI)
  fix y b t
  assume a: "accepts urlRe (y @ b) \<and> b \<noteq> [] \<and>
             (prefix b (js ''a link'') \<or> prefix (js ''a link'') b) \<and> match_at urlRe t \<noteq> None"
  then have acc: "accepts urlRe (y @ b)" by simp
  from a obtain t' where t': "t = 104 # t'" using match_url_starts by blast
  from a link_overlap[of b] have "b = [97] \<or> (\<exists>b'. b = 97 # 32 # b')" by blast
  then show "match_at urlRe (y @ t) \<noteq> None"
  proof
    assume b: "b = [97]"
    have "urlRe = butlast urlRe @ [Plus notSpace]" by (simp add: urlRe_def)
    from accepts_replace_last[OF acc this, of y 97 104]
    have "accepts urlRe (y @ [104])" using b by (simp add: notSpace_def h_not_space)
    moreover have "prefix (y @ [104]) (y @ t)" using t' by simp
    ultimately show ?thesis using match_at_iff by blast
  next
    assume "\<exists>b'. b = 97 # 32 # b'"
    then have "32 \<in> set (y @ b)" by auto
    then have False using accepts_chars[OF acc] class_url by blast
    then show ?thesis ..
  qed
qed

lemma inert_link:
  "inert mentionRe (js ''a link'')" "inert channelRe (js ''a link'')"
  "inert emojiRe (js ''a link'')" "inert urlRe (js ''a link'')"
  by (simp_all add: inert_def a_link mentionRe_def channelRe_def emojiRe_def urlRe_def lit_def
      cu_def)

lemma inert_space:
  "inert mentionRe (js '' '')" "inert channelRe (js '' '')"
  "inert emojiRe (js '' '')" "inert urlRe (js '' '')"
  by (simp_all add: inert_def a_space mentionRe_def channelRe_def emojiRe_def urlRe_def lit_def
      cu_def)

lemma no_match_prefix: "no_match p (u @ z) \<Longrightarrow> no_match p u"
proof (induction u)
  case Nil
  then show ?case by simp
next
  case (Cons c u)
  have "match_at p (c # u) = None"
  proof (rule ccontr)
    assume "match_at p (c # u) \<noteq> None"
    then obtain w where "accepts p w" "prefix w (c # u)" using match_at_iff by blast
    then have "match_at p (c # u @ z) \<noteq> None"
      using match_at_iff[of p "c # u @ z"] by (metis append_Cons prefix_prefix)
    then show False using Cons.prems by simp
  qed
  then show ?case using Cons by simp
qed

lemma trim_decomp: "\<exists>z. dropWhile isSpace s = trim s @ z"
proof -
  let ?u = "dropWhile isSpace s"
  have "rev ?u = takeWhile isSpace (rev ?u) @ dropWhile isSpace (rev ?u)" by simp
  then have "?u = rev (dropWhile isSpace (rev ?u)) @ rev (takeWhile isSpace (rev ?u))"
    by (metis rev_append rev_rev_ident)
  then show ?thesis unfolding trim_def by blast
qed

lemma no_match_trim: "no_match p s \<Longrightarrow> no_match p (trim s)"
proof -
  assume "no_match p s"
  then have "no_match p (dropWhile isSpace s)"
    using no_match_drop[of p s "length (takeWhile isSpace s)"] by (simp add: dropWhile_eq_drop)
  then show ?thesis using trim_decomp[of s] no_match_prefix by metis
qed

lemma trim_idem: "trim (trim s) = trim s"
proof -
  let ?u = "dropWhile isSpace s"
  let ?v = "dropWhile isSpace (rev ?u)"
  have tr: "trim s = rev ?v" by (simp add: trim_def)
  show ?thesis
  proof (cases "?v = []")
    case True
    then have e: "trim s = []" using tr by simp
    have n: "trim [] = ([]::jsstring)" by (simp add: trim_def)
    show ?thesis unfolding e n by (rule refl)
  next
    case False
    then have hv: "\<not> isSpace (hd ?v)" using hd_dropWhile by blast
    have "?u \<noteq> []" using False by (metis dropWhile.simps(1) rev_is_Nil_conv)
    then have hu: "\<not> isSpace (hd ?u)" using hd_dropWhile by blast
    have "\<exists>z. rev ?u = z @ ?v" by (metis takeWhile_dropWhile_id)
    then obtain z where "rev ?u = z @ ?v" by blast
    then have "?u = rev ?v @ rev z" by (metis rev_append rev_rev_ident)
    then have "hd (rev ?v) = hd ?u" using False by (metis hd_append2 rev_is_Nil_conv)
    then have 1: "dropWhile isSpace (rev ?v) = rev ?v"
      using hu False by (cases "rev ?v") auto
    have 2: "dropWhile isSpace ?v = ?v" using hv False by (cases ?v) auto
    show ?thesis unfolding tr using 1 2 by (simp add: trim_def)
  qed
qed

lemma guarded_link:
  "guarded mentionRe (js ''a link'') m" "guarded channelRe (js ''a link'') m"
  using guarded_by_class[of "js ''a link''" mentionRe m]
    guarded_by_class[of "js ''a link''" channelRe m] class_mention(1) class_channel(1)
  by (simp_all add: a_link)

lemma guarded_space:
  "guarded mentionRe (js '' '') m" "guarded channelRe (js '' '') m"
  "guarded emojiRe (js '' '') m" "guarded urlRe (js '' '') m"
  using guarded_by_class[of "js '' ''" mentionRe m] guarded_by_class[of "js '' ''" channelRe m]
    guarded_by_class[of "js '' ''" emojiRe m] guarded_by_class[of "js '' ''" urlRe m]
    class_mention(2) class_channel(2) class_emoji class_url
  by (simp_all add: a_space)

lemma match_plus:
  "match_at [Plus q] (c # cs) = (if q c then Some (Suc (length (takeWhile q cs))) else None)"
proof (induction cs arbitrary: c)
  case Nil
  then show ?case by simp
next
  case (Cons d ds)
  then show ?case by simp
qed

lemma collapse_Cons:
  "replace_g spaceRe r (c # cs) =
     (if isSpace c then r @ replace_g spaceRe r (dropWhile isSpace cs)
      else c # replace_g spaceRe r cs)"
  by (simp add: spaceRe_def match_plus dropWhile_eq_drop del: match_at.simps)

lemma wsn_nonspace: "\<not> isSpace c \<Longrightarrow> wsn (c # s) = wsn s"
  by (cases s) simp_all

lemma wsn_space: "wsn (32 # s) = ((s = [] \<or> \<not> isSpace (hd s)) \<and> wsn s)"
  by (cases s) (simp_all add: space_is_space)

lemma wsn_tl: "wsn (c # s) \<Longrightarrow> wsn s"
  by (cases s) simp_all

lemma collapse_hd:
  "s \<noteq> [] \<Longrightarrow> \<not> isSpace (hd s) \<Longrightarrow>
   replace_g spaceRe [32] s \<noteq> [] \<and> hd (replace_g spaceRe [32] s) = hd s"
  by (cases s) (simp_all add: collapse_Cons del: replace_g.simps(2))

lemma wsn_collapse: "wsn (replace_g spaceRe [32] s)"
proof (induction s rule: length_induct)
  case (1 s)
  show ?case
  proof (cases s)
    case Nil
    then show ?thesis by simp
  next
    case (Cons c cs)
    show ?thesis
    proof (cases "isSpace c")
      case True
      let ?rest = "dropWhile isSpace cs"
      have "length ?rest < length s" using Cons
        by (simp add: le_imp_less_Suc length_dropWhile_le)
      then have w: "wsn (replace_g spaceRe [32] ?rest)" using 1 by blast
      have "replace_g spaceRe [32] ?rest = [] \<or> \<not> isSpace (hd (replace_g spaceRe [32] ?rest))"
      proof (cases "?rest = []")
        case True
        then show ?thesis by (metis replace_g.simps(1))
      next
        case False
        then have "\<not> isSpace (hd ?rest)" using hd_dropWhile by blast
        then show ?thesis using collapse_hd[OF False] by simp
      qed
      then show ?thesis using Cons True w
        by (simp add: collapse_Cons wsn_space del: replace_g.simps(2))
    next
      case False
      have "length cs < length s" using Cons by simp
      then have "wsn (replace_g spaceRe [32] cs)" using 1 by blast
      then show ?thesis using Cons False
        by (simp add: collapse_Cons wsn_nonspace del: replace_g.simps(2))
    qed
  qed
qed

lemma collapse_id: "wsn s \<Longrightarrow> replace_g spaceRe [32] s = s"
proof (induction s)
  case Nil
  then show ?case by simp
next
  case (Cons c cs)
  have ih: "replace_g spaceRe [32] cs = cs" using Cons wsn_tl by blast
  show ?case
  proof (cases "isSpace c")
    case True
    then have c: "c = 32" and n: "cs = [] \<or> \<not> isSpace (hd cs)"
      using Cons.prems by (cases cs; simp)+
    then have "dropWhile isSpace cs = cs" by (cases cs) auto
    then show ?thesis using True c ih by (simp add: collapse_Cons del: replace_g.simps(2))
  next
    case False
    then show ?thesis using ih by (simp add: collapse_Cons del: replace_g.simps(2))
  qed
qed

lemma wsn_dropWhile: "wsn s \<Longrightarrow> wsn (dropWhile P s)"
proof (induction s)
  case Nil
  then show ?case by simp
next
  case (Cons c cs)
  then show ?case using wsn_tl[of c cs] by simp
qed

lemma wsn_prefix: "wsn (u @ z) \<Longrightarrow> wsn u"
proof (induction u rule: wsn.induct)
  case 1
  then show ?case by simp
next
  case (2 c)
  then show ?case by (cases z) simp_all
next
  case (3 c d ds)
  then show ?case by simp
qed

lemma wsn_trim: "wsn s \<Longrightarrow> wsn (trim s)"
  using trim_decomp[of s] wsn_dropWhile[of s isSpace] wsn_prefix by metis

text \<open>Where the emoji pass finds nothing to remove, nothing is joined.\<close>

lemma someone: "js ''someone'' = [115, 111, 109, 101, 111, 110, 101]"
  and a_channel: "js ''a channel'' = [97, 32, 99, 104, 97, 110, 110, 101, 108]"
  by (simp_all add: js_def cu_def)

lemma class_mention_s: "\<forall>it \<in> set mentionRe. \<not> cls it 115"
  by (simp add: mentionRe_def lit_def oneOf_def js_def cu_def isDigit_def)

lemma unspliced_if_no_emoji:
  assumes "no_match emojiRe
             (replace_g channelRe (js ''a channel'') (replace_g mentionRe (js ''someone'') s))"
  shows "unspliced s"
proof -
  let ?a = "replace_g mentionRe (js ''someone'') s"
  let ?b = "replace_g channelRe (js ''a channel'') ?a"
  have ne: "js ''someone'' \<noteq> []" "js ''a channel'' \<noteq> []" by (simp_all add: someone a_channel)
  have gm: "guarded mentionRe (js ''someone'') mentionRe"
    using guarded_by_class[of "js ''someone''" mentionRe mentionRe] class_mention_s
    by (simp add: someone)
  have gmc: "guarded mentionRe (js ''a channel'') channelRe"
    using guarded_by_class[of "js ''a channel''" mentionRe channelRe] class_mention(1)
    by (simp add: a_channel)
  have gc: "guarded channelRe (js ''a channel'') channelRe"
    using guarded_by_class[of "js ''a channel''" channelRe channelRe] class_channel(1)
    by (simp add: a_channel)
  have im: "inert mentionRe (js ''someone'')" "inert mentionRe (js ''a channel'')"
    "inert channelRe (js ''a channel'')"
    by (simp_all add: inert_def someone a_channel mentionRe_def channelRe_def lit_def cu_def)
  have ma: "no_match mentionRe ?a" by (rule no_match_self[OF gm ne(1) im(1)])
  have mb: "no_match mentionRe ?b" by (rule no_match_preserved[OF gmc ne(2) im(2) ma])
  have cb: "no_match channelRe ?b" by (rule no_match_self[OF gc ne(2) im(3)])
  have "replace_g emojiRe [] ?b = ?b" by (rule replace_g_id[OF assms])
  then show ?thesis using mb cb assms by (simp add: unspliced_def)
qed

text \<open>
  C9, as amended. \<open>cleanText (cleanText s) = cleanText s\<close> for every \<open>s\<close> in which the
  removal of custom emoji joins nothing into a new mention, channel or emoji token.
\<close>

theorem cleanText_idempotent_unless_spliced:
  assumes "unspliced s"
  shows "cleanText (cleanText s) = cleanText s"
proof (cases "s = []")
  case True
  then show ?thesis by (simp add: cleanText_def)
next
  case False
  define c where "c = replace_g emojiRe []
      (replace_g channelRe (js ''a channel'') (replace_g mentionRe (js ''someone'') s))"
  define d where "d = replace_g urlRe (js ''a link'') c"
  define e where "e = replace_g spaceRe (js '' '') d"
  define f where "f = trim e"
  have f: "cleanText s = f" using False by (simp add: cleanText_def c_def d_def e_def f_def)
  have ne: "js ''a link'' \<noteq> []" "js '' '' \<noteq> []" by (simp_all add: a_link a_space)
  have mc: "no_match mentionRe c" and cc: "no_match channelRe c" and ec: "no_match emojiRe c"
    using assms by (simp_all add: unspliced_def c_def Let_def)
  have md: "no_match mentionRe d" unfolding d_def
    by (rule no_match_preserved[OF guarded_link(1) ne(1) inert_link(1) mc])
  have cd: "no_match channelRe d" unfolding d_def
    by (rule no_match_preserved[OF guarded_link(2) ne(1) inert_link(2) cc])
  have ed: "no_match emojiRe d" unfolding d_def
    by (rule no_match_preserved[OF guarded_emoji_link ne(1) inert_link(3) ec])
  have ud: "no_match urlRe d" unfolding d_def
    by (rule no_match_self[OF guarded_url_link ne(1) inert_link(4)])
  have me: "no_match mentionRe e" unfolding e_def
    by (rule no_match_preserved[OF guarded_space(1) ne(2) inert_space(1) md])
  have ce: "no_match channelRe e" unfolding e_def
    by (rule no_match_preserved[OF guarded_space(2) ne(2) inert_space(2) cd])
  have ee: "no_match emojiRe e" unfolding e_def
    by (rule no_match_preserved[OF guarded_space(3) ne(2) inert_space(3) ed])
  have ue: "no_match urlRe e" unfolding e_def
    by (rule no_match_preserved[OF guarded_space(4) ne(2) inert_space(4) ud])
  have we: "wsn e" unfolding e_def a_space by (rule wsn_collapse)
  have mf: "replace_g mentionRe (js ''someone'') f = f"
    unfolding f_def by (rule replace_g_id[OF no_match_trim[OF me]])
  have cf: "replace_g channelRe (js ''a channel'') f = f"
    unfolding f_def by (rule replace_g_id[OF no_match_trim[OF ce]])
  have ef: "replace_g emojiRe [] f = f"
    unfolding f_def by (rule replace_g_id[OF no_match_trim[OF ee]])
  have uf: "replace_g urlRe (js ''a link'') f = f"
    unfolding f_def by (rule replace_g_id[OF no_match_trim[OF ue]])
  have wf: "replace_g spaceRe (js '' '') f = f"
    unfolding f_def a_space by (rule collapse_id[OF wsn_trim[OF we]])
  have tf: "trim f = f" unfolding f_def by (rule trim_idem)
  have "cleanText f = f" by (simp add: cleanText_def mf cf ef uf wf tf)
  then show ?thesis unfolding f .
qed

text \<open>
  C9, as stated, fails: removing the emoji from \<open><@<:a:1>1>\<close> leaves \<open><@1>\<close>, which a
  second run turns into \<open>someone\<close>.
\<close>

theorem cleanText_not_idempotent:
  "cleanText (cleanText (js ''<@<:a:1>1>'')) \<noteq> cleanText (js ''<@<:a:1>1>'')"
  by code_simp

theorem cleanText_idempotent_unless_spliced_witness:
  "unspliced (js ''Hello <@123>  check https://x.com <:smile:12> <#55> '') \<and>
   cleanText (js ''Hello <@123>  check https://x.com <:smile:12> <#55> '')
     = js ''Hello someone check a link a channel'' \<and>
   cleanText (js ''Hello someone check a link a channel'')
     = js ''Hello someone check a link a channel''"
proof -
  have u: "unspliced (js ''Hello <@123>  check https://x.com <:smile:12> <#55> '')"
    by code_simp
  have c: "cleanText (js ''Hello <@123>  check https://x.com <:smile:12> <#55> '')
     = js ''Hello someone check a link a channel''"
    by code_simp
  show ?thesis
    using cleanText_idempotent_unless_spliced[OF u] u c by simp
qed

end
